theory Spec2Isabelle
  imports Complex_Main
begin

section \<open>Data model\<close>

text \<open>
  The relief pipeline works on browser \<^verbatim>\<open>ImageData\<close> rasters: a width, a height and a
  row-major RGBA byte buffer (\<^verbatim>\<open>Uint8ClampedArray\<close>). A byte is modelled as a natural
  number below 256. JavaScript numbers are modelled as real numbers, so the statements
  on the rasters, the distance field, the smoothing and the mesh are about the exact
  arithmetic of the formulas in the code. The value that an edge profile returns for a
  given distance depends on the rounding of IEEE doubles, so the two profiles are given
  a second time with every operation rounded to a double, and the two statements that
  fix the returned value (C2 and C3) are made on that second form.
\<close>

record ImageData =
  width :: nat
  height :: nat
  data :: "nat list"

definition wellFormed :: "ImageData \<Rightarrow> bool" where
  "wellFormed img \<longleftrightarrow>
     length (data img) = width img * height img * 4 \<and> list_all (\<lambda>b. b < 256) (data img)"

text \<open>Channel \<open>c\<close> (0 to 3 for R, G, B, A) of the pixel in column \<open>x\<close> and row \<open>y\<close>.\<close>

definition pixelByte :: "ImageData \<Rightarrow> nat \<Rightarrow> nat \<Rightarrow> nat \<Rightarrow> nat" where
  "pixelByte img x y c = data img ! ((y * width img + x) * 4 + c)"

text \<open>A store into a \<^verbatim>\<open>Uint8ClampedArray\<close> clamps an integral number to 0..255.\<close>

definition storeByte :: "int \<Rightarrow> nat" where
  "storeByte v = nat (max 0 (min 255 v))"

datatype EdgeType = vertical | rounded | chamfered

record EdgeProcessorOptions =
  edgeType :: EdgeType
  edgeWidth :: real
  chamferAngle :: "real option"

section \<open>Edge profiles (edgeProcessor.ts)\<close>

text \<open>
  \<^verbatim>\<open>calculateRoundedDepth\<close> and \<^verbatim>\<open>calculateChamferedDepth\<close>, in exact arithmetic.
  Both are only called with \<open>distance \<ge> 0\<close> (the caller's guard); for a negative
  distance the rounded profile takes the root of a negative number, which is NaN in the
  code and is not modelled.
\<close>

definition calculateRoundedDepth :: "real \<Rightarrow> real \<Rightarrow> int" where
  "calculateRoundedDepth distance edgeWidth' =
     (if distance \<ge> edgeWidth' then 255
      else let t = distance / edgeWidth';
               circularT = sqrt (1 - (1 - t) * (1 - t));
               depth = \<lfloor>circularT * 255\<rfloor>
           in max 0 (min 255 depth))"

definition calculateChamferedDepth :: "real \<Rightarrow> real \<Rightarrow> real \<Rightarrow> int" where
  "calculateChamferedDepth distance edgeWidth' angle =
     (if distance \<ge> edgeWidth' then 255
      else let angleRad = (angle * pi) / 180;
               maxHeight = edgeWidth' * tan angleRad;
               currentHeight = distance * tan angleRad;
               normalizedHeight =
                 (if maxHeight > edgeWidth' then (currentHeight / maxHeight) * 255
                  else (currentHeight / edgeWidth') * 255)
           in \<lfloor>max 0 (min 255 normalizedHeight)\<rfloor>)"

section \<open>Edge profiles in double precision (edgeProcessor.ts)\<close>

text \<open>
  The byte that a profile returns depends on the rounding of every operation, so the
  two profile functions are also given with IEEE 754 binary64 arithmetic: \<open>fl\<close>
  rounds a real number to the nearest double, ties to the even significand, with
  gradual underflow (exponent at least \<open>-1074\<close>). Overflow to infinity is not
  represented; no operation of the profiles overflows for \<open>0 \<le> distance < edgeWidth\<close>
  and a tangent of moderate size.
\<close>

definition roundHalfEven :: "real \<Rightarrow> int" where
  "roundHalfEven z =
     (let f = \<lfloor>z\<rfloor> in
      if z - of_int f < 1 / 2 then f
      else if z - of_int f > 1 / 2 then f + 1
      else if even f then f else f + 1)"

text \<open>The exponent of the unit in the last place of the double nearest to \<open>x\<close>.\<close>

definition binadeExp :: "real \<Rightarrow> int" where
  "binadeExp x = max (\<lfloor>log 2 \<bar>x\<bar>\<rfloor> - 52) (- 1074)"

definition fl :: "real \<Rightarrow> real" where
  "fl x =
     (if x = 0 then 0
      else of_int (roundHalfEven (x / 2 powr of_int (binadeExp x)))
             * 2 powr of_int (binadeExp x))"

text \<open>
  \<^verbatim>\<open>calculateRoundedDepth\<close> with every division, subtraction, product and the square
  root rounded to a double, in the order in which the code evaluates them.
\<close>

definition calculateRoundedDepth_binary64 :: "real \<Rightarrow> real \<Rightarrow> int" where
  "calculateRoundedDepth_binary64 distance edgeWidth' =
     (if distance \<ge> edgeWidth' then 255
      else let t = fl (distance / edgeWidth');
               circularT = fl (sqrt (fl (1 - fl (fl (1 - t) * fl (1 - t)))));
               depth = \<lfloor>fl (circularT * 255)\<rfloor>
           in max 0 (min 255 depth))"


section \<open>Contour and distance field (edgeProcessor.ts)\<close>

text \<open>
  \<^verbatim>\<open>extractSmartContour\<close>: one boolean per pixel, true where alpha exceeds 32. The array
  is created with \<open>width * height\<close> empty slots (falsy, here \<open>False\<close>) and slot \<open>i / 4\<close>
  is written for every pixel start \<open>i\<close> of the byte buffer.
\<close>

definition extractSmartContour :: "ImageData \<Rightarrow> bool list" where
  "extractSmartContour img =
     fold (\<lambda>k contour. contour[k := (data img ! (k * 4 + 3) > 32)])
          [0 ..< (length (data img) + 3) div 4]
          (replicate (width img * height img) False)"

text \<open>
  The eight neighbour offsets \<open>(dx, dy)\<close> in the order of the two nested loops
  (\<open>dy\<close> outside, \<open>dx\<close> inside, the centre skipped).
\<close>

definition neighbourOffsets :: "(int \<times> int) list" where
  "neighbourOffsets =
     [(-1, -1), (0, -1), (1, -1), (-1, 0), (1, 0), (-1, 1), (0, 1), (1, 1)]"

definition inBounds :: "nat \<Rightarrow> nat \<Rightarrow> int \<Rightarrow> int \<Rightarrow> bool" where
  "inBounds w h nx ny \<longleftrightarrow> nx \<ge> 0 \<and> nx < int w \<and> ny \<ge> 0 \<and> ny < int h"

text \<open>
  The edge test of the seeding pass: the neighbour loops leave with \<open>isEdge = true\<close> at
  the first neighbour that is outside the raster or not in the contour.
\<close>

definition isEdge :: "bool list \<Rightarrow> nat \<Rightarrow> nat \<Rightarrow> nat \<Rightarrow> nat \<Rightarrow> bool" where
  "isEdge contour w h x y =
     list_ex (\<lambda>(dx, dy).
        let nx = int x + dx; ny = int y + dy in
        if inBounds w h nx ny then \<not> contour ! nat (ny * int w + nx) else True)
       neighbourOffsets"

type_synonym QueueEntry = "nat \<times> nat \<times> real"

text \<open>The body of the seeding pass for pixel \<open>(x, y)\<close>, on the pair (distances, queue).\<close>

definition seedPixel ::
  "bool list \<Rightarrow> nat \<Rightarrow> nat \<Rightarrow> real \<Rightarrow> nat \<Rightarrow> nat \<Rightarrow>
   real list \<times> QueueEntry list \<Rightarrow> real list \<times> QueueEntry list" where
  "seedPixel contour w h maxDistance y x = (\<lambda>(distances, queue).
     let index = y * w + x in
     if contour ! index then
       (if isEdge contour w h x y
        then (distances[index := 0], queue @ [(x, y, 0)])
        else (distances[index := maxDistance], queue))
     else (distances, queue))"

text \<open>
  The body of the neighbour loops of the propagation, for the popped entry
  \<open>(x, y, dist)\<close> (its distance is written \<open>qdist\<close>) and one offset.
\<close>

definition relax ::
  "bool list \<Rightarrow> nat \<Rightarrow> nat \<Rightarrow> real \<Rightarrow> nat \<Rightarrow> nat \<Rightarrow> real \<Rightarrow> int \<times> int \<Rightarrow>
   real list \<times> QueueEntry list \<Rightarrow> real list \<times> QueueEntry list" where
  "relax contour w h maxDistance x y qdist = (\<lambda>(dx, dy) (distances, queue).
     let nx = int x + dx; ny = int y + dy in
     if inBounds w h nx ny then
       (let nIndex = nat (ny * int w + nx) in
        if contour ! nIndex then
          (let newDist = qdist + sqrt (real_of_int (dx * dx + dy * dy)) in
           if newDist < distances ! nIndex \<and> newDist \<le> maxDistance
           then (distances[nIndex := newDist], queue @ [(nat nx, nat ny, newDist)])
           else (distances, queue))
        else (distances, queue))
     else (distances, queue))"

text \<open>One turn of the \<^verbatim>\<open>while (queueIndex < queue.length)\<close> loop.\<close>

definition bfsStep ::
  "bool list \<Rightarrow> nat \<Rightarrow> nat \<Rightarrow> real \<Rightarrow>
   real list \<times> QueueEntry list \<times> nat \<Rightarrow> real list \<times> QueueEntry list \<times> nat" where
  "bfsStep contour w h maxDistance = (\<lambda>(distances, queue, queueIndex).
     case queue ! queueIndex of (x, y, qdist) \<Rightarrow>
       if qdist \<ge> maxDistance then (distances, queue, queueIndex + 1)
       else (case fold (relax contour w h maxDistance x y qdist) neighbourOffsets
                       (distances, queue) of
               (distances', queue') \<Rightarrow> (distances', queue', queueIndex + 1)))"

text \<open>
  The propagation loop. The queue grows while it is consumed, so the loop is a partial
  function: \<open>None\<close> stands for a run that never leaves the loop.
\<close>

partial_function (option) bfsLoop ::
  "bool list \<Rightarrow> nat \<Rightarrow> nat \<Rightarrow> real \<Rightarrow>
   real list \<times> QueueEntry list \<times> nat \<Rightarrow> real list option" where
  "bfsLoop contour w h maxDistance st =
     (if snd (snd st) < length (fst (snd st))
      then bfsLoop contour w h maxDistance (bfsStep contour w h maxDistance st)
      else Some (fst st))"

definition seedPass ::
  "bool list \<Rightarrow> nat \<Rightarrow> nat \<Rightarrow> real \<Rightarrow> real list \<times> QueueEntry list" where
  "seedPass contour w h maxDistance =
     fold (\<lambda>y. fold (seedPixel contour w h maxDistance y) [0 ..< w]) [0 ..< h]
          (replicate (w * h) (-1), [])"

definition calculateDistanceFieldFast ::
  "bool list \<Rightarrow> nat \<Rightarrow> nat \<Rightarrow> real \<Rightarrow> real list option" where
  "calculateDistanceFieldFast contour w h maxDistance =
     (case seedPass contour w h maxDistance of
        (distances, queue) \<Rightarrow> bfsLoop contour w h maxDistance (distances, queue, 0))"

section \<open>Depth raster (edgeProcessor.ts)\<close>

text \<open>The four stores of one pixel of the result.\<close>

definition writePixel :: "nat \<Rightarrow> int \<Rightarrow> nat \<Rightarrow> nat list \<Rightarrow> nat list" where
  "writePixel index depth outputAlpha rd =
     rd[index := storeByte depth, index + 1 := storeByte depth,
        index + 2 := storeByte depth, index + 3 := outputAlpha]"

text \<open>Loop body of the vertical style.\<close>

definition verticalPixel :: "ImageData \<Rightarrow> nat \<Rightarrow> nat \<Rightarrow> nat list \<Rightarrow> nat list" where
  "verticalPixel img y x rd =
     (let index = (y * width img + x) * 4;
          originalAlpha = data img ! (index + 3)
      in if originalAlpha > 32 then writePixel index 255 originalAlpha rd
         else writePixel index 0 0 rd)"

text \<open>
  Loop body of the rounded and chamfered styles. \<^verbatim>\<open>options.chamferAngle || 45\<close>
  replaces a missing or zero angle by 45.
\<close>

definition chamferAngleOrDefault :: "EdgeProcessorOptions \<Rightarrow> real" where
  "chamferAngleOrDefault opts =
     (case chamferAngle opts of None \<Rightarrow> 45 | Some a \<Rightarrow> if a = 0 then 45 else a)"

definition profilePixel ::
  "ImageData \<Rightarrow> EdgeProcessorOptions \<Rightarrow> real list \<Rightarrow> nat \<Rightarrow> nat \<Rightarrow> nat list \<Rightarrow> nat list" where
  "profilePixel img opts distanceField y x rd =
     (let index = (y * width img + x) * 4;
          distance = distanceField ! (y * width img + x);
          originalAlpha = data img ! (index + 3)
      in if originalAlpha > 32 \<and> distance \<ge> 0 then
           writePixel index
             (case edgeType opts of
                rounded \<Rightarrow> calculateRoundedDepth distance (edgeWidth opts)
              | chamfered \<Rightarrow>
                  calculateChamferedDepth distance (edgeWidth opts) (chamferAngleOrDefault opts)
              | vertical \<Rightarrow> 0)
             originalAlpha rd
         else if originalAlpha \<le> 32 then writePixel index 0 0 rd
         else writePixel index 0 originalAlpha rd)"

text \<open>
  \<^verbatim>\<open>processImageWithEdges\<close>. The function has no \<^verbatim>\<open>throw\<close>; the only way not to
  return a raster is that the propagation loop of the distance field does not end.
\<close>

definition processImageWithEdges :: "ImageData \<Rightarrow> EdgeProcessorOptions \<Rightarrow> ImageData option" where
  "processImageWithEdges img opts =
     (let w = width img; h = height img; blank = replicate (w * h * 4) 0 in
      if edgeType opts = vertical then
        Some \<lparr>width = w, height = h,
              data = fold (\<lambda>y. fold (verticalPixel img y) [0 ..< w]) [0 ..< h] blank\<rparr>
      else
        (case calculateDistanceFieldFast (extractSmartContour img) w h (edgeWidth opts) of
           None \<Rightarrow> None
         | Some distanceField \<Rightarrow>
             Some \<lparr>width = w, height = h,
                   data = fold (\<lambda>y. fold (profilePixel img opts distanceField y) [0 ..< w])
                               [0 ..< h] blank\<rparr>))"

section \<open>Edge smoothing (simpleImageProcessor.ts)\<close>

text \<open>
  \<^verbatim>\<open>intelligentEdgeSmoothing\<close> with its three local functions. \<^verbatim>\<open>getPixelValue\<close> reads
  the R channel of the input and answers 0 outside the raster.
\<close>

definition getPixelValue :: "ImageData \<Rightarrow> int \<Rightarrow> int \<Rightarrow> nat" where
  "getPixelValue img x y =
     (if x < 0 \<or> x \<ge> int (width img) \<or> y < 0 \<or> y \<ge> int (height img) then 0
      else data img ! nat ((y * int (width img) + x) * 4))"

definition isEdgePixel :: "ImageData \<Rightarrow> int \<Rightarrow> int \<Rightarrow> bool" where
  "isEdgePixel img x y =
     (let centerValue = getPixelValue img x y;
          threshold = 8;
          neighbors =
            [getPixelValue img (x - 1) (y - 1), getPixelValue img x (y - 1),
             getPixelValue img (x + 1) (y - 1),
             getPixelValue img (x - 1) y, getPixelValue img (x + 1) y,
             getPixelValue img (x - 1) (y + 1), getPixelValue img x (y + 1),
             getPixelValue img (x + 1) (y + 1)]
      in list_ex (\<lambda>neighbor. \<bar>int centerValue - int neighbor\<bar> > threshold) neighbors)"

text \<open>Kernel half-width and weights chosen by the strength tier.\<close>

definition smoothingKernel :: "real \<Rightarrow> int \<times> real list list" where
  "smoothingKernel smoothingStrength =
     (if smoothingStrength \<le> 0.3 then
        (1, [[1, 2, 1],
             [2, 4, 2],
             [1, 2, 1]])
      else if smoothingStrength \<le> 0.7 then
        (2, [[1, 2, 3, 2, 1],
             [2, 4, 6, 4, 2],
             [3, 6, 9, 6, 3],
             [2, 4, 6, 4, 2],
             [1, 2, 3, 2, 1]])
      else
        (3, [[1, 2, 3, 4, 3, 2, 1],
             [2, 4, 6, 8, 6, 4, 2],
             [3, 6, 9, 12, 9, 6, 3],
             [4, 8, 12, 16, 12, 8, 4],
             [3, 6, 9, 12, 9, 6, 3],
             [2, 4, 6, 8, 6, 4, 2],
             [1, 2, 3, 4, 3, 2, 1]]))"

definition getSmoothValue :: "ImageData \<Rightarrow> real \<Rightarrow> int \<Rightarrow> int \<Rightarrow> real" where
  "getSmoothValue img smoothingStrength x y =
     (let centerValue = real (getPixelValue img x y);
          (kernelSize, weights) = smoothingKernel smoothingStrength;
          (weightedSum, totalWeight) =
            fold (\<lambda>dy. fold (\<lambda>dx (weightedSum, totalWeight).
                    let nx = x + dx; ny = y + dy;
                        weight = weights ! nat (dy + kernelSize) ! nat (dx + kernelSize);
                        value = real (getPixelValue img nx ny);
                        similarityThreshold = 30 + (smoothingStrength * 70)
                    in if \<bar>value - centerValue\<bar> < similarityThreshold
                       then (weightedSum + value * weight, totalWeight + weight)
                       else (weightedSum, totalWeight))
                  [- kernelSize .. kernelSize])
              [- kernelSize .. kernelSize] (0, 0)
      in if totalWeight > 0 then weightedSum / totalWeight else centerValue)"

text \<open>
  The loop body of one smoothing pass for pixel \<open>(x, y)\<close>: \<open>tempData\<close> is the copy of
  the result taken when the pass starts. \<^verbatim>\<open>Math.round\<close> is \<open>floor (v + 1/2)\<close>;
  \<^verbatim>\<open>Math.pow(s, 0.5)\<close> is the square root (the loop only runs for \<open>s > 0\<close>).
\<close>

definition smoothPixel ::
  "ImageData \<Rightarrow> real \<Rightarrow> nat list \<Rightarrow> nat \<Rightarrow> nat \<Rightarrow> nat list \<Rightarrow> nat list" where
  "smoothPixel img smoothingStrength tempData y x rd =
     (if isEdgePixel img (int x) (int y) then
        (let smoothValue = getSmoothValue img smoothingStrength (int x) (int y);
             index = (y * width img + x) * 4;
             originalValue = real (tempData ! index);
             enhancedStrength = sqrt smoothingStrength;
             finalValue = originalValue * (1 - enhancedStrength) + smoothValue * enhancedStrength;
             rounded' = storeByte \<lfloor>finalValue + 1 / 2\<rfloor>
         in rd[index := rounded', index + 1 := rounded', index + 2 := rounded',
               index + 3 := tempData ! (index + 3)])
      else rd)"

definition smoothIteration :: "ImageData \<Rightarrow> real \<Rightarrow> nat list \<Rightarrow> nat list" where
  "smoothIteration img smoothingStrength rd =
     fold (\<lambda>y. fold (smoothPixel img smoothingStrength rd y) [0 ..< width img])
          [0 ..< height img] rd"

definition intelligentEdgeSmoothing :: "ImageData \<Rightarrow> real \<Rightarrow> ImageData" where
  "intelligentEdgeSmoothing img smoothingStrength =
     (let iterationCount = \<lceil>smoothingStrength * 4\<rceil> in
      \<lparr>width = width img, height = height img,
       data = ((smoothIteration img smoothingStrength) ^^ nat iterationCount) (data img)\<rparr>)"

text \<open>
  The near-edge test in the words of the specification: some 8-neighbour of the pixel
  (a pixel of the raster) has a depth that differs from the pixel's own by more than 8.
\<close>

definition specNearEdge :: "ImageData \<Rightarrow> nat \<Rightarrow> nat \<Rightarrow> bool" where
  "specNearEdge img x y =
     list_ex (\<lambda>(dx, dy).
        inBounds (width img) (height img) (int x + dx) (int y + dy) \<and>
        \<bar>int (pixelByte img x y 0)
           - int (pixelByte img (nat (int x + dx)) (nat (int y + dy)) 0)\<bar> > 8)
       neighbourOffsets"

section \<open>Height-field mesh (DepthMap3DViewer.tsx)\<close>

text \<open>
  The geometry that \<^verbatim>\<open>PreciseDepthMapModel\<close> builds from the depth raster: the vertex
  and colour arrays and the triangle index array. (The normals, computed afterwards from
  these arrays, are not modelled. Where the code divides by \<open>gridWidth - 1 = 0\<close> it
  produces NaN coordinates; here the quotient is 0. Neither changes the array lengths
  or the indices.)
\<close>

datatype Quality = low | medium | high | ultra

definition qualityStep :: "Quality \<Rightarrow> nat" where
  "qualityStep quality = (case quality of low \<Rightarrow> 8 | medium \<Rightarrow> 4 | high \<Rightarrow> 2 | ultra \<Rightarrow> 1)"

record Geometry =
  vertices :: "real list"
  colors :: "real list"
  faces :: "nat list"

definition orElse :: "nat option \<Rightarrow> nat \<Rightarrow> nat" where
  "orElse a b = (case a of None \<Rightarrow> b | Some v \<Rightarrow> if v = 0 then b else v)"

definition gridVertex ::
  "ImageData \<Rightarrow> real \<Rightarrow> nat \<Rightarrow> nat \<Rightarrow> nat option \<Rightarrow> nat option \<Rightarrow> nat \<Rightarrow> nat \<Rightarrow> nat \<Rightarrow>
   nat \<Rightarrow> nat \<Rightarrow> real list \<times> real list \<Rightarrow> real list \<times> real list" where
  "gridVertex imageData modelHeight w h originalWidth originalHeight step gridWidth gridHeight y x =
     (\<lambda>(vertices', colors').
       let imgX = min (int x * int step) (int w - 1);
           imgY = min (int y * int step) (int h - 1);
           pixelIndex = nat ((imgY * int w + imgX) * 4);
           r = data imageData ! pixelIndex;
           alpha = data imageData ! (pixelIndex + 3);
           depth = (if alpha > 32 then real r / 255 else 0);
           physicalWidth = orElse originalWidth w;
           physicalHeight = orElse originalHeight h;
           physicalScale = 10;
           worldX = (real x / (real gridWidth - 1) - 0.5) * physicalScale;
           worldY = ((real gridHeight - 1 - real y) / (real gridHeight - 1) - 0.5)
                      * physicalScale * (real physicalHeight / real physicalWidth);
           worldZ = depth * modelHeight * 0.05;
           intensity = 0.7 + depth * 0.3
       in (vertices' @ [worldX, worldY, worldZ],
           colors' @ [intensity, intensity * 0.95, intensity * 0.9]))"

definition quadFaces :: "nat \<Rightarrow> nat \<Rightarrow> nat \<Rightarrow> nat list \<Rightarrow> nat list" where
  "quadFaces gridWidth y x faces' =
     (let topLeft = y * gridWidth + x;
          topRight = y * gridWidth + (x + 1);
          bottomLeft = (y + 1) * gridWidth + x;
          bottomRight = (y + 1) * gridWidth + (x + 1)
      in faces' @ [topLeft, bottomLeft, topRight, topRight, bottomLeft, bottomRight])"

definition PreciseDepthMapModel_geometry ::
  "ImageData \<Rightarrow> real \<Rightarrow> nat \<Rightarrow> nat \<Rightarrow> nat option \<Rightarrow> nat option \<Rightarrow> Quality \<Rightarrow> Geometry" where
  "PreciseDepthMapModel_geometry imageData modelHeight w h originalWidth originalHeight quality =
     (let step = qualityStep quality;
          gridWidth = nat \<lceil>real w / real step\<rceil>;
          gridHeight = nat \<lceil>real h / real step\<rceil>;
          (vertices', colors') =
            fold (\<lambda>y. fold (gridVertex imageData modelHeight w h originalWidth originalHeight
                                step gridWidth gridHeight y) [0 ..< gridWidth])
                 [0 ..< gridHeight] ([], []);
          faces' =
            fold (\<lambda>y. fold (quadFaces gridWidth y) [0 ..< gridWidth - 1])
                 [0 ..< gridHeight - 1] []
      in \<lparr>vertices = vertices', colors = colors', faces = faces'\<rparr>)"

text \<open>The counts that the component logs: three numbers per vertex and per triangle.\<close>

definition vertexCount :: "Geometry \<Rightarrow> nat" where
  "vertexCount g = length (vertices g) div 3"

definition triangleCount :: "Geometry \<Rightarrow> nat" where
  "triangleCount g = length (faces g) div 3"

section \<open>Shortest lattice paths: the distance field in the words of the specification\<close>

text \<open>
  Pixels are lattice points \<open>(x, y)\<close>. A pixel is inside when it lies in the raster
  and the mask is true there; an edge pixel is an inside pixel on the border of the
  raster or with an 8-neighbour in the raster whose mask is false. A lattice path is a
  non-empty sequence of points in which consecutive points are 8-neighbours; an
  orthogonal step costs 1 and a diagonal step costs \<open>sqrt 2\<close>.
\<close>

definition pixelIndex :: "nat \<Rightarrow> int \<times> int \<Rightarrow> nat" where
  "pixelIndex w p = nat (snd p * int w + fst p)"

definition inside :: "bool list \<Rightarrow> nat \<Rightarrow> nat \<Rightarrow> int \<times> int \<Rightarrow> bool" where
  "inside contour w h p \<longleftrightarrow> inBounds w h (fst p) (snd p) \<and> contour ! pixelIndex w p"

definition adjacent8 :: "int \<times> int \<Rightarrow> int \<times> int \<Rightarrow> bool" where
  "adjacent8 p q \<longleftrightarrow> p \<noteq> q \<and> \<bar>fst q - fst p\<bar> \<le> 1 \<and> \<bar>snd q - snd p\<bar> \<le> 1"

definition stepCost :: "int \<times> int \<Rightarrow> int \<times> int \<Rightarrow> real" where
  "stepCost p q = (if fst p = fst q \<or> snd p = snd q then 1 else sqrt 2)"

definition edgePixel :: "bool list \<Rightarrow> nat \<Rightarrow> nat \<Rightarrow> int \<times> int \<Rightarrow> bool" where
  "edgePixel contour w h p \<longleftrightarrow>
     inside contour w h p \<and>
     (fst p = 0 \<or> snd p = 0 \<or> fst p = int w - 1 \<or> snd p = int h - 1 \<or>
      list_ex (\<lambda>(dx, dy). inBounds w h (fst p + dx) (snd p + dy) \<and>
                 \<not> contour ! pixelIndex w (fst p + dx, snd p + dy)) neighbourOffsets)"

fun isPath :: "(int \<times> int) list \<Rightarrow> bool" where
  "isPath [] = False"
| "isPath [p] = True"
| "isPath (p # q # ps) = (adjacent8 p q \<and> isPath (q # ps))"

fun pathLength :: "(int \<times> int) list \<Rightarrow> real" where
  "pathLength (p # q # ps) = stepCost p q + pathLength (q # ps)"
| "pathLength ps = 0"

definition pathToEdge :: "bool list \<Rightarrow> nat \<Rightarrow> nat \<Rightarrow> int \<times> int \<Rightarrow> (int \<times> int) list \<Rightarrow> bool" where
  "pathToEdge contour w h p ps \<longleftrightarrow> isPath ps \<and> hd ps = p \<and> edgePixel contour w h (last ps)"

definition shortestToEdge :: "bool list \<Rightarrow> nat \<Rightarrow> nat \<Rightarrow> int \<times> int \<Rightarrow> real \<Rightarrow> bool" where
  "shortestToEdge contour w h p d \<longleftrightarrow>
     (\<exists>ps. pathToEdge contour w h p ps \<and> pathLength ps = d) \<and>
     (\<forall>ps. pathToEdge contour w h p ps \<longrightarrow> d \<le> pathLength ps)"

section \<open>Auxiliary notions for the proofs\<close>

definition pixelBlock :: "nat \<Rightarrow> nat \<times> nat \<Rightarrow> nat set" where
  "pixelBlock w = (\<lambda>(y, x). {(y * w + x) * 4 ..< (y * w + x) * 4 + 4})"

definition lattice :: "real set" where
  "lattice = {s. \<exists>a b :: nat. s = real a + real b * sqrt 2}"

definition candidates :: "real \<Rightarrow> real set" where
  "candidates M = {s \<in> lattice. s \<le> M}"

definition pot :: "real \<Rightarrow> real \<Rightarrow> nat" where
  "pot M v = card {s \<in> candidates M. s < v}"

definition potential :: "real \<Rightarrow> real list \<Rightarrow> nat" where
  "potential M ds = sum_list (map (pot M) ds)"

text \<open>The termination invariant and measure of the propagation loop.\<close>

definition queueInLattice :: "QueueEntry list \<Rightarrow> bool" where
  "queueInLattice q \<longleftrightarrow> (\<forall>e \<in> set q. snd (snd e) \<in> lattice)"

definition bfsInv :: "nat \<Rightarrow> nat \<Rightarrow> real list \<times> QueueEntry list \<times> nat \<Rightarrow> bool" where
  "bfsInv w h = (\<lambda>(ds, q, i). length ds = w * h \<and> queueInLattice q)"

definition bfsMeasure :: "real \<Rightarrow> real list \<times> QueueEntry list \<times> nat \<Rightarrow> nat" where
  "bfsMeasure M = (\<lambda>(ds, q, i). 2 * potential M ds + (length q - i))"

text \<open>Invariants of the propagation loop, used to prove what the distance field holds.\<close>

definition realised :: "bool list \<Rightarrow> nat \<Rightarrow> nat \<Rightarrow> int \<times> int \<Rightarrow> real \<Rightarrow> bool" where
  "realised contour w h p d \<longleftrightarrow> (\<exists>ps. pathToEdge contour w h p ps \<and> pathLength ps = d)"

definition valsOK :: "bool list \<Rightarrow> nat \<Rightarrow> nat \<Rightarrow> real \<Rightarrow> real list \<Rightarrow> bool" where
  "valsOK contour w h M ds \<longleftrightarrow>
     (\<forall>p. inBounds w h (fst p) (snd p) \<and> \<not> contour ! pixelIndex w p
           \<longrightarrow> ds ! pixelIndex w p = - 1) \<and>
     (\<forall>p. inside contour w h p \<longrightarrow>
           ds ! pixelIndex w p \<le> M \<and>
           (edgePixel contour w h p \<longrightarrow> ds ! pixelIndex w p = 0))"

definition soundDs :: "bool list \<Rightarrow> nat \<Rightarrow> nat \<Rightarrow> real \<Rightarrow> real list \<Rightarrow> bool" where
  "soundDs contour w h M ds \<longleftrightarrow>
     (\<forall>p. inside contour w h p \<longrightarrow>
           ds ! pixelIndex w p = M \<or> realised contour w h p (ds ! pixelIndex w p))"

definition queued ::
  "bool list \<Rightarrow> nat \<Rightarrow> nat \<Rightarrow> real \<Rightarrow> real list \<Rightarrow> QueueEntry list \<Rightarrow> bool" where
  "queued contour w h M ds q \<longleftrightarrow>
     (\<forall>p. inside contour w h p \<longrightarrow>
           ds ! pixelIndex w p = M \<or>
           (nat (fst p), nat (snd p), ds ! pixelIndex w p) \<in> set q)"

definition soundQ :: "bool list \<Rightarrow> nat \<Rightarrow> nat \<Rightarrow> QueueEntry list \<Rightarrow> bool" where
  "soundQ contour w h q \<longleftrightarrow>
     (\<forall>e \<in> set q. realised contour w h (int (fst e), int (fst (snd e))) (snd (snd e)))"

definition relaxedFrom ::
  "bool list \<Rightarrow> nat \<Rightarrow> nat \<Rightarrow> real \<Rightarrow> real list \<Rightarrow> QueueEntry \<Rightarrow> (int \<times> int) set \<Rightarrow> bool" where
  "relaxedFrom contour w h M ds e offs \<longleftrightarrow>
     (\<forall>off \<in> offs.
        let p = (int (fst e), int (fst (snd e)));
            n = (fst p + fst off, snd p + snd off)
        in inside contour w h n \<longrightarrow> snd (snd e) + stepCost p n \<le> M
             \<longrightarrow> ds ! pixelIndex w n \<le> snd (snd e) + stepCost p n)"

definition stateOK ::
  "bool list \<Rightarrow> nat \<Rightarrow> nat \<Rightarrow> real \<Rightarrow> real list \<Rightarrow> QueueEntry list \<Rightarrow> bool" where
  "stateOK contour w h M ds q \<longleftrightarrow>
     length ds = w * h \<and> valsOK contour w h M ds \<and> soundDs contour w h M ds \<and>
     queued contour w h M ds q \<and> soundQ contour w h q"

definition dfInv ::
  "bool list \<Rightarrow> nat \<Rightarrow> nat \<Rightarrow> real \<Rightarrow> real list \<times> QueueEntry list \<times> nat \<Rightarrow> bool" where
  "dfInv contour w h M = (\<lambda>(ds, q, i).
     stateOK contour w h M ds q \<and> i \<le> length q \<and>
     (\<forall>k < i. snd (snd (q ! k)) < M \<longrightarrow>
               relaxedFrom contour w h M ds (q ! k) (set neighbourOffsets)))"

section \<open>Lemmas on the edge profiles\<close>



section \<open>Rounding to double precision\<close>

lemma roundHalfEven_cases:
  "roundHalfEven z = \<lfloor>z\<rfloor> \<and> z - of_int \<lfloor>z\<rfloor> \<le> 1 / 2
   \<or> roundHalfEven z = \<lfloor>z\<rfloor> + 1 \<and> 1 / 2 \<le> z - of_int \<lfloor>z\<rfloor>"
  by (auto simp: roundHalfEven_def Let_def)

lemma roundHalfEven_error: "\<bar>of_int (roundHalfEven z) - z\<bar> \<le> 1 / 2"
proof -
  have "of_int \<lfloor>z\<rfloor> \<le> z" "z < of_int \<lfloor>z\<rfloor> + 1" by linarith+
  then show ?thesis using roundHalfEven_cases[of z] by auto
qed

lemma roundHalfEven_near:
  assumes "\<bar>z - of_int m\<bar> < 1 / 2"
  shows "roundHalfEven z = m"
proof -
  have "\<bar>of_int (roundHalfEven z) - z\<bar> \<le> 1 / 2" by (rule roundHalfEven_error)
  then have "\<bar>(of_int (roundHalfEven z) :: real) - of_int m\<bar> < 1" using assms by linarith
  then have "\<bar>of_int (roundHalfEven z - m) :: real\<bar> < 1" by simp
  then have "\<bar>roundHalfEven z - m\<bar> < 1" by (simp only: of_int_abs[symmetric] of_int_less_1_iff)
  then show ?thesis by simp
qed

lemma roundHalfEven_mono:
  assumes "z \<le> z'"
  shows "roundHalfEven z \<le> roundHalfEven z'"
proof (cases "\<lfloor>z\<rfloor> = \<lfloor>z'\<rfloor>")
  case False
  then have "\<lfloor>z\<rfloor> < \<lfloor>z'\<rfloor>" using floor_mono[OF assms] by simp
  moreover have "roundHalfEven z \<le> \<lfloor>z\<rfloor> + 1" "\<lfloor>z'\<rfloor> \<le> roundHalfEven z'"
    using roundHalfEven_cases[of z] roundHalfEven_cases[of z'] by auto
  ultimately show ?thesis by linarith
next
  case True
  then have "z - of_int \<lfloor>z\<rfloor> \<le> z' - of_int \<lfloor>z'\<rfloor>" using assms by simp
  then show ?thesis using True by (auto simp: roundHalfEven_def Let_def)
qed

lemma two_powr_int_bounds:
  assumes "0 < x"
  shows "2 powr of_int \<lfloor>log 2 x\<rfloor> \<le> x" "x < 2 powr (of_int \<lfloor>log 2 x\<rfloor> + 1)"
proof -
  have "\<lfloor>log 2 x\<rfloor> = \<lfloor>log 2 x\<rfloor> \<longleftrightarrow>
          2 powr of_int \<lfloor>log 2 x\<rfloor> \<le> x \<and> x < 2 powr (of_int (\<lfloor>log 2 x\<rfloor> + 1))"
    using assms by (intro floor_log_eq_powr_iff) simp_all
  then show "2 powr of_int \<lfloor>log 2 x\<rfloor> \<le> x" "x < 2 powr (of_int \<lfloor>log 2 x\<rfloor> + 1)"
    by simp_all
qed

lemma binadeExp_eq:
  assumes "0 < x" "2 powr of_int k \<le> x" "x < 2 powr (of_int k + 1)"
  shows "binadeExp x = max (k - 52) (- 1074)"
proof -
  have "\<lfloor>log 2 x\<rfloor> = k"
    using assms by (subst floor_log_eq_powr_iff) simp_all
  then show ?thesis using assms(1) by (simp add: binadeExp_def)
qed

lemma binadeExp_mono:
  assumes "0 < x" "x \<le> y"
  shows "binadeExp x \<le> binadeExp y"
proof -
  have "log 2 x \<le> log 2 y" using assms by simp
  then have "\<lfloor>log 2 x\<rfloor> \<le> \<lfloor>log 2 y\<rfloor>" by (rule floor_mono)
  then show ?thesis using assms by (simp add: binadeExp_def)
qed

lemma fl_zero: "fl 0 = 0"
  by (simp add: fl_def)

lemma fl_error:
  "\<bar>fl x - x\<bar> \<le> 2 powr of_int (binadeExp x) / 2"
proof (cases "x = 0")
  case True
  then show ?thesis by (simp add: fl_def)
next
  case False
  let ?u = "2 powr of_int (binadeExp x) :: real"
  have u: "0 < ?u" by simp
  have "\<bar>of_int (roundHalfEven (x / ?u)) - x / ?u\<bar> \<le> 1 / 2" by (rule roundHalfEven_error)
  then have "\<bar>of_int (roundHalfEven (x / ?u)) - x / ?u\<bar> * ?u \<le> 1 / 2 * ?u"
    using u by (intro mult_right_mono) simp_all
  moreover have "\<bar>of_int (roundHalfEven (x / ?u)) - x / ?u\<bar> * ?u
                  = \<bar>of_int (roundHalfEven (x / ?u)) * ?u - x\<bar>"
  proof -
    have "\<bar>of_int (roundHalfEven (x / ?u)) - x / ?u\<bar> * ?u
            = \<bar>(of_int (roundHalfEven (x / ?u)) - x / ?u) * ?u\<bar>"
      using u by (simp add: abs_mult)
    also have "(of_int (roundHalfEven (x / ?u)) - x / ?u) * ?u
                 = of_int (roundHalfEven (x / ?u)) * ?u - x"
      using u by (simp add: algebra_simps)
    finally show ?thesis .
  qed
  ultimately show ?thesis using False by (simp add: fl_def)
qed

lemma fl_error_le:
  assumes "0 \<le> x" "x \<le> 2 powr of_int j" "- 1022 \<le> j"
  shows "\<bar>fl x - x\<bar> \<le> 2 powr of_int (j - 53)"
proof (cases "x = 0")
  case True
  then show ?thesis by (simp add: fl_def)
next
  case False
  then have x: "0 < x" using assms(1) by simp
  have "0 < 2 powr (of_int j :: real)" by simp
  then have "log 2 x \<le> log 2 (2 powr of_int j)"
    using x assms(2) by (subst log_le_cancel_iff) simp_all
  then have "log 2 x \<le> of_int j" by simp
  then have "\<lfloor>log 2 x\<rfloor> \<le> j" by (simp add: floor_le_iff)
  then have "binadeExp x \<le> j - 52" using x assms(3) by (simp add: binadeExp_def)
  then have "2 powr of_int (binadeExp x) \<le> (2::real) powr of_int (j - 52)"
    by (intro powr_mono) simp_all
  moreover have "2 powr of_int (j - 52) / 2 = (2::real) powr of_int (j - 53)"
  proof -
    have "of_int (j - 52) = of_int (j - 53) + (1::real)" by simp
    then have "2 powr of_int (j - 52) = (2::real) powr of_int (j - 53) * 2 powr (1::real)"
      by (simp only: powr_add)
    then show ?thesis by simp
  qed
  ultimately show ?thesis using fl_error[of x] by linarith
qed

lemma fl_scaled:
  assumes "0 < x" "n \<le> 1074" "2 ^ 52 \<le> x * 2 ^ n" "x * 2 ^ n < 2 ^ 53"
  shows "fl x = of_int (roundHalfEven (x * 2 ^ n)) / 2 ^ n"
proof -
  have p: "2 powr of_int (- int n) = (1::real) / 2 ^ n"
    by (simp add: powr_minus_divide powr_realpow)
  have q: "2 powr of_int (52 - int n) = (2::real) ^ 52 / 2 ^ n"
  proof -
    have "of_int (52 - int n) = (52::real) + of_int (- int n)" by simp
    then have "2 powr of_int (52 - int n) = 2 powr (52::real) * 2 powr of_int (- int n)"
      by (simp only: powr_add)
    then show ?thesis using p by simp
  qed
  have q': "2 powr (of_int (52 - int n) + 1) = (2::real) ^ 53 / 2 ^ n"
  proof -
    have "2 powr (of_int (52 - int n) + 1) = 2 powr of_int (52 - int n) * 2 powr (1::real)"
      by (simp only: powr_add)
    then show ?thesis using q by simp
  qed
  have lo: "2 powr of_int (52 - int n) \<le> x"
    unfolding q using assms(3) by (simp add: field_simps)
  have hi: "x < 2 powr (of_int (52 - int n) + 1)"
    unfolding q' using assms(4) by (simp add: field_simps)
  have "binadeExp x = max ((52 - int n) - 52) (- 1074)"
    using assms(1) lo hi by (rule binadeExp_eq)
  then have e: "binadeExp x = - int n" using assms(2) by simp
  have d: "x / 2 powr of_int (binadeExp x) = x * 2 ^ n" unfolding e p by simp
  have "fl x = of_int (roundHalfEven (x / 2 powr of_int (binadeExp x)))
                 * 2 powr of_int (binadeExp x)"
    using assms(1) by (simp add: fl_def)
  also have "\<dots> = of_int (roundHalfEven (x * 2 ^ n)) * 2 powr of_int (binadeExp x)"
    by (simp only: d)
  also have "\<dots> = of_int (roundHalfEven (x * 2 ^ n)) * (1 / 2 ^ n)" by (simp only: e p)
  finally show ?thesis by simp
qed

lemma fl_value:
  assumes "0 < x" "n \<le> 1074" "2 ^ 52 \<le> x * 2 ^ n" "x * 2 ^ n < 2 ^ 53"
      and "\<bar>x * 2 ^ n - of_int m\<bar> < 1 / 2"
  shows "fl x = of_int m / 2 ^ n"
  using fl_scaled[OF assms(1-4)] roundHalfEven_near[OF assms(5)] by simp

lemma fl_one: "fl 1 = 1"
  using fl_value[of 1 52 "2 ^ 52"] by simp

lemma fl_255: "fl 255 = 255"
  using fl_value[of 255 45 "255 * 2 ^ 45"] by simp

lemma roundHalfEven_of_int: "roundHalfEven (of_int m) = m"
  by (rule roundHalfEven_near) simp

lemma fl_nonzero:
  "x \<noteq> 0 \<Longrightarrow>
   fl x = of_int (roundHalfEven (x / 2 powr of_int (binadeExp x))) * 2 powr of_int (binadeExp x)"
  by (simp add: fl_def)

lemma fl_nonneg:
  assumes "0 \<le> x"
  shows "0 \<le> fl x"
proof (cases "x = 0")
  case True
  then show ?thesis by (simp add: fl_def)
next
  case False
  let ?u = "2 powr of_int (binadeExp x) :: real"
  have "0 \<le> x / ?u" using assms by simp
  then have "roundHalfEven (of_int 0) \<le> roundHalfEven (x / ?u)"
    by (intro roundHalfEven_mono) simp
  then have "0 \<le> roundHalfEven (x / ?u)" by (simp only: roundHalfEven_of_int)
  then show ?thesis using False by (simp add: fl_nonzero)
qed

lemma fl_upper:
  assumes "0 < x"
  shows "fl x \<le> 2 powr (of_int (binadeExp x) + 53)"
proof -
  let ?e = "binadeExp x"
  let ?u = "2 powr of_int ?e :: real"
  have u: "0 < ?u" by simp
  have "\<lfloor>log 2 x\<rfloor> - 52 \<le> ?e" using assms by (simp add: binadeExp_def)
  then have "of_int \<lfloor>log 2 x\<rfloor> + 1 \<le> (of_int ?e + 53 :: real)" by linarith
  then have "2 powr (of_int \<lfloor>log 2 x\<rfloor> + 1) \<le> (2::real) powr (of_int ?e + 53)"
    by (intro powr_mono) simp_all
  then have "x < 2 powr (of_int ?e + 53)"
    using two_powr_int_bounds(2)[OF assms] by linarith
  also have "2 powr (of_int ?e + 53) = ?u * 2 powr (53::real)" by (simp only: powr_add)
  finally have "x / ?u < 2 powr (53::real)" using u by (simp add: field_simps)
  then have "x / ?u \<le> of_int (2 ^ 53)" by simp
  then have "roundHalfEven (x / ?u) \<le> roundHalfEven (of_int (2 ^ 53))"
    by (rule roundHalfEven_mono)
  then have "roundHalfEven (x / ?u) \<le> 2 ^ 53" by (simp only: roundHalfEven_of_int)
  then have "(of_int (roundHalfEven (x / ?u)) :: real) \<le> of_int (2 ^ 53)"
    by (simp only: of_int_le_iff)
  then have A: "of_int (roundHalfEven (x / ?u)) * ?u \<le> of_int (2 ^ 53) * ?u"
    using u by (intro mult_right_mono) simp_all
  have B: "of_int (2 ^ 53) * ?u = 2 powr (of_int ?e + 53)"
    by (simp add: powr_add)
  have C: "fl x = of_int (roundHalfEven (x / ?u)) * ?u"
    using assms by (intro fl_nonzero) simp
  from A have "fl x \<le> of_int (2 ^ 53) * ?u" by (simp only: C)
  then show ?thesis by (simp only: B)
qed

lemma fl_lower:
  assumes "0 < y" "- 1074 < binadeExp y"
  shows "2 powr (of_int (binadeExp y) + 52) \<le> fl y"
proof -
  let ?e = "binadeExp y"
  let ?u = "2 powr of_int ?e :: real"
  have u: "0 < ?u" by simp
  have "?e = \<lfloor>log 2 y\<rfloor> - 52" using assms by (simp add: binadeExp_def)
  then have "of_int \<lfloor>log 2 y\<rfloor> = (of_int ?e + 52 :: real)" by simp
  then have "2 powr (of_int ?e + 52) \<le> y"
    using two_powr_int_bounds(1)[OF assms(1)] by simp
  moreover have pe: "2 powr (of_int ?e + 52) = ?u * 2 powr (52::real)" by (simp only: powr_add)
  ultimately have "2 powr (52::real) \<le> y / ?u" using u by (simp add: field_simps)
  then have "of_int (2 ^ 52) \<le> y / ?u" by simp
  then have "roundHalfEven (of_int (2 ^ 52)) \<le> roundHalfEven (y / ?u)"
    by (rule roundHalfEven_mono)
  then have "2 ^ 52 \<le> roundHalfEven (y / ?u)" by (simp only: roundHalfEven_of_int)
  then have "(of_int (2 ^ 52) :: real) \<le> of_int (roundHalfEven (y / ?u))"
    by (simp only: of_int_le_iff)
  then have A: "of_int (2 ^ 52) * ?u \<le> of_int (roundHalfEven (y / ?u)) * ?u"
    using u by (intro mult_right_mono) simp_all
  have B: "of_int (2 ^ 52) * ?u = 2 powr (of_int ?e + 52)"
    by (simp add: powr_add)
  have C: "fl y = of_int (roundHalfEven (y / ?u)) * ?u"
    using assms(1) by (intro fl_nonzero) simp
  from A have "of_int (2 ^ 52) * ?u \<le> fl y" by (simp only: C)
  then show ?thesis by (simp only: B)
qed

lemma fl_mono:
  assumes "0 \<le> x" "x \<le> y"
  shows "fl x \<le> fl y"
proof (cases "x = 0")
  case True
  then show ?thesis using fl_nonneg[of y] assms by (simp add: fl_zero)
next
  case False
  then have x: "0 < x" and y: "0 < y" using assms by simp_all
  have le: "binadeExp x \<le> binadeExp y" using x assms(2) by (rule binadeExp_mono)
  show ?thesis
  proof (cases "binadeExp x = binadeExp y")
    case True
    let ?u = "2 powr of_int (binadeExp y) :: real"
    have u: "0 < ?u" by simp
    have "x / ?u \<le> y / ?u" using assms(2) u by (simp add: divide_right_mono)
    then have "roundHalfEven (x / ?u) \<le> roundHalfEven (y / ?u)" by (rule roundHalfEven_mono)
    then have "(of_int (roundHalfEven (x / ?u)) :: real) \<le> of_int (roundHalfEven (y / ?u))"
      by (simp only: of_int_le_iff)
    then have "of_int (roundHalfEven (x / ?u)) * ?u \<le> of_int (roundHalfEven (y / ?u)) * ?u"
      using u by (intro mult_right_mono) simp_all
    then show ?thesis using x y True by (simp add: fl_nonzero)
  next
    case False
    then have lt: "binadeExp x < binadeExp y" using le by simp
    have "- 1074 \<le> binadeExp x" by (simp add: binadeExp_def)
    then have n: "- 1074 < binadeExp y" using lt by simp
    have "(of_int (binadeExp x) + 53 :: real) \<le> of_int (binadeExp y) + 52" using lt by linarith
    then have "2 powr (of_int (binadeExp x) + 53) \<le> (2::real) powr (of_int (binadeExp y) + 52)"
      by (intro powr_mono) simp_all
    then show ?thesis using fl_upper[OF x] fl_lower[OF y n] by linarith
  qed
qed

lemma fl_error_pow:
  assumes "0 \<le> x" "x \<le> 2 ^ k"
  shows "\<bar>fl x - x\<bar> \<le> 2 ^ k / 2 ^ 53"
proof -
  have "x \<le> 2 powr of_int (int k)" using assms(2) by (simp add: powr_realpow)
  then have "\<bar>fl x - x\<bar> \<le> 2 powr of_int (int k - 53)"
    using assms(1) by (intro fl_error_le) simp_all
  moreover have "2 powr of_int (int k - 53) = (2::real) ^ k / 2 ^ 53"
  proof -
    have "of_int (int k - 53) = real k + (- 53)" by simp
    then have "2 powr of_int (int k - 53) = (2::real) powr real k * 2 powr (- 53)"
      by (simp only: powr_add)
    then show ?thesis by (simp add: powr_realpow powr_minus_divide)
  qed
  ultimately show ?thesis by simp
qed



lemma sqrt_diff_le:
  fixes a b :: real
  assumes "0 \<le> a" "0 \<le> b"
  shows "\<bar>sqrt a - sqrt b\<bar> \<le> sqrt \<bar>a - b\<bar>"
proof -
  have main: "sqrt y - sqrt x \<le> sqrt (y - x)" if "0 \<le> x" "x \<le> y" for x y :: real
  proof -
    have "sqrt y = sqrt (x + (y - x))" by simp
    also have "\<dots> \<le> sqrt x + sqrt (y - x)"
      using that by (intro sqrt_add_le_add_sqrt) simp_all
    finally show ?thesis by simp
  qed
  show ?thesis
  proof (cases "a \<le> b")
    case True
    then have "sqrt a \<le> sqrt b" by simp
    then show ?thesis using main[OF assms(1) True] True by (simp add: abs_if)
  next
    case False
    then have ba: "b \<le> a" by simp
    then have "sqrt b \<le> sqrt a" by simp
    then show ?thesis using main[OF assms(2) ba] ba by (simp add: abs_if)
  qed
qed

lemma fl_unit:
  assumes "0 \<le> y" "y \<le> 1"
  shows "0 \<le> fl y" "fl y \<le> 1" "\<bar>fl y - y\<bar> \<le> 1 / 2 ^ 53"
proof -
  show "0 \<le> fl y" using assms(1) by (rule fl_nonneg)
  show "fl y \<le> 1" using fl_mono[OF assms] by (simp only: fl_one)
  have "y \<le> 2 ^ 0" using assms(2) by simp
  then have "\<bar>fl y - y\<bar> \<le> 2 ^ 0 / 2 ^ 53" using assms(1) by (intro fl_error_pow)
  then show "\<bar>fl y - y\<bar> \<le> 1 / 2 ^ 53" by simp
qed

section \<open>Lemmas on the rounded profile in double precision\<close>

lemma rounded_chain:
  fixes r :: real
  assumes "0 \<le> r" "r \<le> 1"
  defines "t \<equiv> fl r"
  defines "a \<equiv> fl (1 - t)"
  defines "p \<equiv> fl (a * a)"
  defines "x \<equiv> fl (1 - p)"
  defines "s \<equiv> fl (sqrt x)"
  defines "v \<equiv> fl (s * 255)"
  shows "0 \<le> v" "v \<le> 255"
    and "\<bar>v - 255 * sqrt (1 - (1 - r) * (1 - r))\<bar> \<le> 1 / 2 ^ 16"
proof -
  define e :: real where "e = 1 / 2 ^ 53"
  define b where "b = 1 - r"
  define X where "X = 1 - b * b"
  have b: "0 \<le> b" "b \<le> 1" using assms(1,2) by (simp_all add: b_def)
  have "b * b \<le> 1 * 1" using b by (intro mult_mono) simp_all
  then have X: "0 \<le> X" "X \<le> 1" using b by (simp_all add: X_def)
  have t: "0 \<le> t" "t \<le> 1" "\<bar>t - r\<bar> \<le> e"
    unfolding t_def e_def using assms(1,2) by (rule fl_unit)+
  have a': "0 \<le> 1 - t" "1 - t \<le> 1" using t by simp_all
  have a: "0 \<le> a" "a \<le> 1" "\<bar>a - (1 - t)\<bar> \<le> e"
    unfolding a_def e_def using a' by (rule fl_unit)+
  have ab: "\<bar>a - b\<bar> \<le> 2 * e" using a(3) t(3) by (simp add: b_def)
  have "a * a \<le> 1 * 1" using a by (intro mult_mono) simp_all
  then have p': "0 \<le> a * a" "a * a \<le> 1" using a by simp_all
  have p: "0 \<le> p" "p \<le> 1" "\<bar>p - a * a\<bar> \<le> e"
    unfolding p_def e_def using p' by (rule fl_unit)+
  have "\<bar>a * a - b * b\<bar> = \<bar>a - b\<bar> * \<bar>a + b\<bar>"
    by (simp add: abs_mult[symmetric] algebra_simps)
  also have "\<dots> \<le> (2 * e) * 2"
    using ab a b by (intro mult_mono) simp_all
  finally have aabb: "\<bar>a * a - b * b\<bar> \<le> 4 * e" by simp
  have x': "0 \<le> 1 - p" "1 - p \<le> 1" using p by simp_all
  have x: "0 \<le> x" "x \<le> 1" "\<bar>x - (1 - p)\<bar> \<le> e"
    unfolding x_def e_def using x' by (rule fl_unit)+
  have xX: "\<bar>x - X\<bar> \<le> 6 * e" using x(3) p(3) aabb by (simp add: X_def)
  have s': "0 \<le> sqrt x" "sqrt x \<le> 1" using x by simp_all
  have s: "0 \<le> s" "s \<le> 1" "\<bar>s - sqrt x\<bar> \<le> e"
    unfolding s_def e_def using s' by (rule fl_unit)+
  have "6 * e \<le> (1 / 2 ^ 25)\<^sup>2" by (simp add: e_def power2_eq_square)
  then have "\<bar>x - X\<bar> \<le> (1 / 2 ^ 25)\<^sup>2" using xX by linarith
  then have "sqrt \<bar>x - X\<bar> \<le> 1 / 2 ^ 25" by (intro real_le_lsqrt) simp_all
  then have sX: "\<bar>sqrt x - sqrt X\<bar> \<le> 1 / 2 ^ 25"
    using sqrt_diff_le[OF x(1) X(1)] by linarith
  have v': "0 \<le> s * 255" "s * 255 \<le> 255" using s by simp_all
  show "0 \<le> v" unfolding v_def using v'(1) by (rule fl_nonneg)
  show "v \<le> 255" using fl_mono[OF v'] by (simp only: v_def fl_255)
  have "s * 255 \<le> 2 ^ 8" using v'(2) by simp
  then have "\<bar>v - s * 255\<bar> \<le> 2 ^ 8 / 2 ^ 53"
    unfolding v_def using v'(1) by (intro fl_error_pow)
  then have "\<bar>v - 255 * sqrt X\<bar> \<le> 1 / 2 ^ 16"
    using s(3) sX unfolding e_def abs_le_iff by simp
  then show "\<bar>v - 255 * sqrt (1 - (1 - r) * (1 - r))\<bar> \<le> 1 / 2 ^ 16"
    by (simp only: X_def b_def)
qed

lemma rounded_chain_mono:
  fixes r1 r2 :: real
  assumes "0 \<le> r1" "r1 \<le> r2" "r2 \<le> 1"
  shows "fl (fl (sqrt (fl (1 - fl (fl (1 - fl r1) * fl (1 - fl r1))))) * 255)
       \<le> fl (fl (sqrt (fl (1 - fl (fl (1 - fl r2) * fl (1 - fl r2))))) * 255)"
proof -
  have r1: "r1 \<le> 1" and r2: "0 \<le> r2" using assms by simp_all
  have t: "fl r1 \<le> fl r2" using assms(1,2) by (rule fl_mono)
  have t1: "fl r1 \<le> 1" using assms(1) r1 by (rule fl_unit)
  have t2: "fl r2 \<le> 1" using r2 assms(3) by (rule fl_unit)
  have "0 \<le> 1 - fl r2" "1 - fl r2 \<le> 1 - fl r1" using t t2 by simp_all
  then have a: "fl (1 - fl r2) \<le> fl (1 - fl r1)" by (rule fl_mono)
  have a2: "0 \<le> fl (1 - fl r2)" using t2 by (intro fl_nonneg) simp
  have "0 \<le> 1 - fl r1" "1 - fl r1 \<le> 1" using t1 fl_nonneg[OF assms(1)] by simp_all
  then have a1: "fl (1 - fl r1) \<le> 1" by (rule fl_unit)
  have pp: "fl (1 - fl r2) * fl (1 - fl r2) \<le> fl (1 - fl r1) * fl (1 - fl r1)"
    using a a2 by (intro mult_mono) simp_all
  have "0 \<le> fl (1 - fl r2) * fl (1 - fl r2)" using a2 by simp
  then have p: "fl (fl (1 - fl r2) * fl (1 - fl r2)) \<le> fl (fl (1 - fl r1) * fl (1 - fl r1))"
    using pp by (rule fl_mono)
  have "fl (1 - fl r1) * fl (1 - fl r1) \<le> 1 * 1"
    using a1 a a2 by (intro mult_mono) simp_all
  moreover have "0 \<le> fl (1 - fl r1) * fl (1 - fl r1)" using a a2 by simp
  ultimately have p1: "fl (fl (1 - fl r1) * fl (1 - fl r1)) \<le> 1"
    by (intro fl_unit) simp_all
  have "0 \<le> 1 - fl (fl (1 - fl r1) * fl (1 - fl r1))"
       "1 - fl (fl (1 - fl r1) * fl (1 - fl r1)) \<le> 1 - fl (fl (1 - fl r2) * fl (1 - fl r2))"
    using p p1 by simp_all
  then have x: "fl (1 - fl (fl (1 - fl r1) * fl (1 - fl r1)))
              \<le> fl (1 - fl (fl (1 - fl r2) * fl (1 - fl r2)))"
    by (rule fl_mono)
  have x1: "0 \<le> fl (1 - fl (fl (1 - fl r1) * fl (1 - fl r1)))"
    using p1 by (intro fl_nonneg) simp
  have "0 \<le> sqrt (fl (1 - fl (fl (1 - fl r1) * fl (1 - fl r1))))"
       "sqrt (fl (1 - fl (fl (1 - fl r1) * fl (1 - fl r1))))
          \<le> sqrt (fl (1 - fl (fl (1 - fl r2) * fl (1 - fl r2))))"
    using x x1 by simp_all
  then have s: "fl (sqrt (fl (1 - fl (fl (1 - fl r1) * fl (1 - fl r1)))))
              \<le> fl (sqrt (fl (1 - fl (fl (1 - fl r2) * fl (1 - fl r2)))))"
    by (rule fl_mono)
  have s1: "0 \<le> fl (sqrt (fl (1 - fl (fl (1 - fl r1) * fl (1 - fl r1)))))"
    using x1 by (intro fl_nonneg) simp
  have "0 \<le> fl (sqrt (fl (1 - fl (fl (1 - fl r1) * fl (1 - fl r1))))) * 255"
       "fl (sqrt (fl (1 - fl (fl (1 - fl r1) * fl (1 - fl r1))))) * 255
          \<le> fl (sqrt (fl (1 - fl (fl (1 - fl r2) * fl (1 - fl r2))))) * 255"
    using s s1 by simp_all
  then show ?thesis by (rule fl_mono)
qed

lemma rounded_binary64_in_band:
  assumes "0 < W" "0 \<le> d" "d < W"
  shows "calculateRoundedDepth_binary64 d W =
           \<lfloor>fl (fl (sqrt (fl (1 - fl (fl (1 - fl (d / W)) * fl (1 - fl (d / W)))))) * 255)\<rfloor>"
    and "0 \<le> calculateRoundedDepth_binary64 d W"
    and "calculateRoundedDepth_binary64 d W \<le> 255"
    and "\<bar>fl (fl (sqrt (fl (1 - fl (fl (1 - fl (d / W)) * fl (1 - fl (d / W)))))) * 255)
          - 255 * sqrt (1 - (1 - d / W)\<^sup>2)\<bar> \<le> 1 / 2 ^ 16"
proof -
  let ?v = "fl (fl (sqrt (fl (1 - fl (fl (1 - fl (d / W)) * fl (1 - fl (d / W)))))) * 255)"
  have r: "0 \<le> d / W" "d / W \<le> 1" using assms by simp_all
  have v0: "0 \<le> ?v" and v1: "?v \<le> 255" using rounded_chain(1,2)[OF r] by simp_all
  have f0: "0 \<le> \<lfloor>?v\<rfloor>" using v0 by simp
  have f1: "\<lfloor>?v\<rfloor> \<le> 255" using v1 by (simp add: floor_le_iff)
  have "calculateRoundedDepth_binary64 d W = max 0 (min 255 \<lfloor>?v\<rfloor>)"
    using assms(3) by (simp add: calculateRoundedDepth_binary64_def Let_def)
  then show e: "calculateRoundedDepth_binary64 d W = \<lfloor>?v\<rfloor>" using f0 f1 by simp
  show "0 \<le> calculateRoundedDepth_binary64 d W" unfolding e by (rule f0)
  show "calculateRoundedDepth_binary64 d W \<le> 255" unfolding e by (rule f1)
  show "\<bar>?v - 255 * sqrt (1 - (1 - d / W)\<^sup>2)\<bar> \<le> 1 / 2 ^ 16"
    using rounded_chain(3)[OF r] by (simp only: power2_eq_square)
qed

lemma floor_close:
  fixes u w :: real
  assumes "\<bar>u - w\<bar> \<le> 1"
  shows "\<bar>\<lfloor>u\<rfloor> - \<lfloor>w\<rfloor>\<bar> \<le> 1"
proof -
  have "u \<le> w + 1" "w \<le> u + 1" using assms by linarith+
  then show ?thesis using floor_mono[of u "w + 1"] floor_mono[of w "u + 1"] by simp
qed

lemma rounded_binary64_mono:
  assumes "0 < W" "0 \<le> d1" "d1 \<le> d2"
  shows "calculateRoundedDepth_binary64 d1 W \<le> calculateRoundedDepth_binary64 d2 W"
proof (cases "d2 < W")
  case True
  then have d1: "d1 < W" and d2: "0 \<le> d2" using assms by simp_all
  have "0 \<le> d1 / W" "d1 / W \<le> d2 / W" "d2 / W \<le> 1"
    using assms True by (simp_all add: divide_right_mono)
  then have "fl (fl (sqrt (fl (1 - fl (fl (1 - fl (d1 / W)) * fl (1 - fl (d1 / W)))))) * 255)
           \<le> fl (fl (sqrt (fl (1 - fl (fl (1 - fl (d2 / W)) * fl (1 - fl (d2 / W)))))) * 255)"
    by (rule rounded_chain_mono)
  then show ?thesis
    unfolding rounded_binary64_in_band(1)[OF assms(1,2) d1]
              rounded_binary64_in_band(1)[OF assms(1) d2 True]
    by (rule floor_mono)
next
  case False
  then have e: "calculateRoundedDepth_binary64 d2 W = 255"
    by (simp add: calculateRoundedDepth_binary64_def)
  show ?thesis
  proof (cases "d1 < W")
    case True
    then show ?thesis unfolding e using assms by (intro rounded_binary64_in_band(3))
  next
    case False
    then show ?thesis unfolding e by (simp add: calculateRoundedDepth_binary64_def)
  qed
qed

lemma rounded_binary64_1_5: "calculateRoundedDepth_binary64 1 5 = 152"
proof -
  have e: "calculateRoundedDepth_binary64 1 5 =
      \<lfloor>fl (fl (sqrt (fl (1 - fl (fl (1 - fl (1 / 5)) * fl (1 - fl (1 / 5)))))) * 255)\<rfloor>"
    by (rule rounded_binary64_in_band(1)) simp_all
  have t: "fl (1 / 5) = 3602879701896397 / 18014398509481984"
    using fl_scaled[of "1 / 5" 55] by (simp add: roundHalfEven_def Let_def)
  have a: "fl (1 - 3602879701896397 / 18014398509481984) = 3602879701896397 / 4503599627370496"
    using fl_scaled[of "1 - 3602879701896397 / 18014398509481984" 53] by (simp add: roundHalfEven_def Let_def)
  have p: "fl ((3602879701896397 / 4503599627370496) * (3602879701896397 / 4503599627370496)) = 1441151880758559 / 2251799813685248"
    using fl_scaled[of "(3602879701896397 / 4503599627370496) * (3602879701896397 / 4503599627370496)" 53] by (simp add: roundHalfEven_def Let_def)
  have x: "fl (1 - 1441151880758559 / 2251799813685248) = 810647932926689 / 2251799813685248"
    using fl_scaled[of "1 - 1441151880758559 / 2251799813685248" 54] by (simp add: roundHalfEven_def Let_def)
  have lo: "10808639105689187 / 18014398509481984 < sqrt (810647932926689 / 2251799813685248)"
    by (rule real_less_rsqrt) (simp add: power2_eq_square)
  have hi: "sqrt (810647932926689 / 2251799813685248) < 10808639105689189 / 18014398509481984"
    by (rule real_less_lsqrt) (simp_all add: power2_eq_square)
  have r: "0 < sqrt (810647932926689 / 2251799813685248)" "2 ^ 52 \<le> sqrt (810647932926689 / 2251799813685248) * 2 ^ 53"
    "sqrt (810647932926689 / 2251799813685248) * 2 ^ 53 < 2 ^ 53"
    "\<bar>sqrt (810647932926689 / 2251799813685248) * 2 ^ 53 - of_int 5404319552844594\<bar> < 1 / 2"
    using lo hi unfolding abs_less_iff by simp_all
  have s: "fl (sqrt (810647932926689 / 2251799813685248)) = 2702159776422297 / 4503599627370496"
    using fl_value[OF r(1) _ r(2,3,4)] by simp
  have v: "fl ((2702159776422297 / 4503599627370496) * 255) = 5383208929591295 / 35184372088832"
    using fl_scaled[of "(2702159776422297 / 4503599627370496) * 255" 45] by (simp add: roundHalfEven_def Let_def)
  have f: "\<lfloor>5383208929591295 / 35184372088832 :: real\<rfloor> = 152"
    by (simp add: floor_eq_iff)
  show ?thesis unfolding e t a p x s v f ..
qed

lemma rounded_binary64_254:
  assumes "0 < W" "0 \<le> d" "d < W"
      and "(2545 / 2550)\<^sup>2 \<le> 1 - (1 - d / W)\<^sup>2"
      and "1 - (1 - d / W)\<^sup>2 \<le> (25499 / 25500)\<^sup>2"
  shows "calculateRoundedDepth_binary64 d W = 254"
proof -
  let ?v = "fl (fl (sqrt (fl (1 - fl (fl (1 - fl (d / W)) * fl (1 - fl (d / W)))))) * 255)"
  have lo: "2545 / 2550 \<le> sqrt (1 - (1 - d / W)\<^sup>2)"
    using assms(4) by (rule real_le_rsqrt)
  have hi: "sqrt (1 - (1 - d / W)\<^sup>2) \<le> 25499 / 25500"
    using assms(5) by (intro real_le_lsqrt) simp_all
  have "\<bar>?v - 255 * sqrt (1 - (1 - d / W)\<^sup>2)\<bar> \<le> 1 / 2 ^ 16"
    using assms(1-3) by (rule rounded_binary64_in_band(4))
  then have "254 \<le> ?v" "?v < 255"
    using lo hi unfolding abs_le_iff by simp_all
  then have "\<lfloor>?v\<rfloor> = 254" by (simp add: floor_eq_iff)
  then show ?thesis by (simp only: rounded_binary64_in_band(1)[OF assms(1-3)])
qed

section \<open>Lemmas on the chamfered profile in double precision\<close>





section \<open>Claims on the edge profiles\<close>

text \<open>
  C2 (as amended). For the rounded style with edge width \<open>W > 0\<close>, in double precision:
  the depth is exactly 255 whenever \<open>distance \<ge> W\<close>; for a distance in \<open>[0, W)\<close> it
  is the floor of \<open>255 * sqrt (1 - (1 - t) * (1 - t))\<close> with \<open>t = distance / W\<close> where
  every operation is rounded to a double, it lies between 0 and 255, and it differs
  by at most one from \<open>floor (255 * sqrt (1 - (1 - t)\<^sup>2))\<close> in exact arithmetic; and the
  depth never decreases when the distance grows. (It is neither always equal to the
  exact value nor strictly increasing, see the counterexample below.)
\<close>

theorem C2_rounded_profile_binary64:
  assumes "0 < W"
  shows "(W \<le> d \<longrightarrow> calculateRoundedDepth_binary64 d W = 255)
       \<and> (0 \<le> d \<and> d < W \<longrightarrow>
            calculateRoundedDepth_binary64 d W =
              \<lfloor>fl (fl (sqrt (fl (1 - fl (fl (1 - fl (d / W)) * fl (1 - fl (d / W)))))) * 255)\<rfloor>
          \<and> 0 \<le> calculateRoundedDepth_binary64 d W
          \<and> calculateRoundedDepth_binary64 d W \<le> 255
          \<and> \<bar>calculateRoundedDepth_binary64 d W - \<lfloor>255 * sqrt (1 - (1 - d / W)\<^sup>2)\<rfloor>\<bar> \<le> 1)
       \<and> (0 \<le> d1 \<and> d1 \<le> d2 \<longrightarrow>
            calculateRoundedDepth_binary64 d1 W \<le> calculateRoundedDepth_binary64 d2 W)"
proof (intro conjI impI)
  assume "W \<le> d"
  then show "calculateRoundedDepth_binary64 d W = 255"
    by (simp add: calculateRoundedDepth_binary64_def)
next
  assume "0 \<le> d \<and> d < W"
  then show "calculateRoundedDepth_binary64 d W =
      \<lfloor>fl (fl (sqrt (fl (1 - fl (fl (1 - fl (d / W)) * fl (1 - fl (d / W)))))) * 255)\<rfloor>"
    using rounded_binary64_in_band(1)[OF assms] by simp
next
  assume "0 \<le> d \<and> d < W"
  then show "0 \<le> calculateRoundedDepth_binary64 d W"
    using rounded_binary64_in_band(2)[OF assms] by simp
next
  assume "0 \<le> d \<and> d < W"
  then show "calculateRoundedDepth_binary64 d W \<le> 255"
    using rounded_binary64_in_band(3)[OF assms] by simp
next
  assume d: "0 \<le> d \<and> d < W"
  let ?v = "fl (fl (sqrt (fl (1 - fl (fl (1 - fl (d / W)) * fl (1 - fl (d / W)))))) * 255)"
  have "\<bar>?v - 255 * sqrt (1 - (1 - d / W)\<^sup>2)\<bar> \<le> 1 / 2 ^ 16"
    using rounded_binary64_in_band(4)[OF assms] d by simp
  moreover have "(1::real) / 2 ^ 16 \<le> 1" by simp
  ultimately have "\<bar>?v - 255 * sqrt (1 - (1 - d / W)\<^sup>2)\<bar> \<le> 1" by linarith
  then have "\<bar>\<lfloor>?v\<rfloor> - \<lfloor>255 * sqrt (1 - (1 - d / W)\<^sup>2)\<rfloor>\<bar> \<le> 1" by (rule floor_close)
  moreover have "calculateRoundedDepth_binary64 d W = \<lfloor>?v\<rfloor>"
    using rounded_binary64_in_band(1)[OF assms] d by simp
  ultimately show
    "\<bar>calculateRoundedDepth_binary64 d W - \<lfloor>255 * sqrt (1 - (1 - d / W)\<^sup>2)\<rfloor>\<bar> \<le> 1"
    by simp
next
  assume "0 \<le> d1 \<and> d1 \<le> d2"
  then show "calculateRoundedDepth_binary64 d1 W \<le> calculateRoundedDepth_binary64 d2 W"
    using rounded_binary64_mono[OF assms] by simp
qed

theorem C2_rounded_profile_binary64_witness:
  "calculateRoundedDepth_binary64 7 5 = 255
   \<and> 0 \<le> calculateRoundedDepth_binary64 1 5
   \<and> \<bar>calculateRoundedDepth_binary64 1 5 - 153\<bar> \<le> 1
   \<and> calculateRoundedDepth_binary64 1 5 \<le> calculateRoundedDepth_binary64 2 5"
proof -
  note A = C2_rounded_profile_binary64[where W = 5 and d = 7 and ?d1.0 = 1 and ?d2.0 = 2]
  note B = C2_rounded_profile_binary64[where W = 5 and d = 1 and ?d1.0 = 1 and ?d2.0 = 2]
  have h: "0 < (5::real)" by simp
  have a: "(5::real) \<le> 7" by simp
  have b: "0 \<le> (1::real) \<and> (1::real) < 5" by simp
  have c: "0 \<le> (1::real) \<and> (1::real) \<le> 2" by simp
  have "1 - (1 - 1 / 5)\<^sup>2 = ((3 / 5)\<^sup>2 :: real)" by (simp add: power2_eq_square)
  then have s: "sqrt (1 - (1 - 1 / 5)\<^sup>2) = 3 / 5" by (simp only: real_sqrt_abs)
  have f: "\<lfloor>255 * sqrt (1 - (1 - 1 / 5)\<^sup>2)\<rfloor> = (153::int)" unfolding s by simp
  have "calculateRoundedDepth_binary64 7 5 = 255" using A[OF h] a by blast
  moreover have "0 \<le> calculateRoundedDepth_binary64 1 5" using B[OF h] b by blast
  moreover have "\<bar>calculateRoundedDepth_binary64 1 5 - 153\<bar> \<le> 1"
    using B[OF h] b unfolding f by blast
  moreover have "calculateRoundedDepth_binary64 1 5 \<le> calculateRoundedDepth_binary64 2 5"
    using B[OF h] c by blast
  ultimately show ?thesis by blast
qed

text \<open>
  Counterexample to C2 as stated. With edge width 100 the distances 98 and 99 both lie
  in \<open>[0, 100)\<close> and both get depth 254, so the depth is not strictly increasing. With
  edge width 5 the distance 1 gets depth 152, while \<open>floor (255 * sqrt (1 - (1 - t)\<^sup>2))\<close>
  is 153 for \<open>t = 1 / 5\<close>: the rounded square root is just below \<open>3 / 5\<close>.
\<close>

theorem C2_not_strictly_increasing_nor_exact:
  "calculateRoundedDepth_binary64 98 100 = 254
   \<and> calculateRoundedDepth_binary64 99 100 = 254
   \<and> calculateRoundedDepth_binary64 1 5 = 152
   \<and> \<lfloor>255 * sqrt (1 - (1 - 1 / 5)\<^sup>2)\<rfloor> = (153::int)"
proof (intro conjI)
  show "calculateRoundedDepth_binary64 98 100 = 254"
    by (rule rounded_binary64_254) (simp_all add: power2_eq_square)
  show "calculateRoundedDepth_binary64 99 100 = 254"
    by (rule rounded_binary64_254) (simp_all add: power2_eq_square)
  show "calculateRoundedDepth_binary64 1 5 = 152" by (rule rounded_binary64_1_5)
  have "1 - (1 - 1 / 5)\<^sup>2 = ((3 / 5)\<^sup>2 :: real)" by (simp add: power2_eq_square)
  then have s: "sqrt (1 - (1 - 1 / 5)\<^sup>2) = 3 / 5" by (simp only: real_sqrt_abs)
  show "\<lfloor>255 * sqrt (1 - (1 - 1 / 5)\<^sup>2)\<rfloor> = (153::int)" unfolding s by simp
qed






section \<open>Raster loops and termination of the propagation\<close>

lemma fold_nested_product:
  "fold (\<lambda>y. fold (f y) xs) ys s = fold (\<lambda>(y, x). f y x) (List.product ys xs) s"
  by (induction ys arbitrary: s) (simp_all add: fold_map comp_def)

lemma fold_invariant:
  assumes "\<And>x s. x \<in> set xs \<Longrightarrow> P s \<Longrightarrow> P (f x s)" "P s"
  shows "P (fold f xs s)"
  using assms by (induction xs arbitrary: s) simp_all

lemma fold_frame:
  assumes "\<And>k rd. k \<in> set ks \<Longrightarrow> j \<notin> B k \<Longrightarrow> f k rd ! j = rd ! j"
      and "\<And>k. k \<in> set ks \<Longrightarrow> j \<notin> B k"
  shows "fold f ks rd ! j = rd ! j"
  using assms by (induction ks arbitrary: rd) simp_all

lemma fold_length:
  assumes "\<And>k rd. k \<in> set ks \<Longrightarrow> length (f k rd) = length rd"
  shows "length (fold f ks rd) = length rd"
  using assms by (induction ks arbitrary: rd) simp_all

lemma fold_block:
  assumes len: "\<And>k rd. k \<in> set ks \<Longrightarrow> length (f k rd) = length rd"
      and frame: "\<And>k rd j. k \<in> set ks \<Longrightarrow> j \<notin> B k \<Longrightarrow> f k rd ! j = rd ! j"
      and wr: "\<And>k rd j. k \<in> set ks \<Longrightarrow> j \<in> B k \<Longrightarrow> j < length rd \<Longrightarrow> f k rd ! j = G k j (rd ! j)"
      and disj: "\<And>k k'. k \<in> set ks \<Longrightarrow> k' \<in> set ks \<Longrightarrow> k \<noteq> k' \<Longrightarrow> B k \<inter> B k' = {}"
      and "distinct ks" "k \<in> set ks" "j \<in> B k" "j < length rd"
  shows "fold f ks rd ! j = G k j (rd ! j)"
  using assms
proof (induction ks arbitrary: rd)
  case Nil
  then show ?case by simp
next
  case (Cons a ks)
  show ?case
  proof (cases "k = a")
    case True
    have notin: "\<And>k'. k' \<in> set ks \<Longrightarrow> j \<notin> B k'"
    proof -
      fix k' assume k': "k' \<in> set ks"
      then have "k' \<noteq> a" using Cons.prems(5) by auto
      then have "B a \<inter> B k' = {}" using Cons.prems(4)[of a k'] k' by simp
      then show "j \<notin> B k'" using Cons.prems(7) True by auto
    qed
    have "fold f ks (f a rd) ! j = f a rd ! j"
      by (rule fold_frame[where B = B]) (simp_all add: Cons.prems(2) notin)
    then show ?thesis using Cons.prems(3)[of a j rd] Cons.prems(7,8) True by simp
  next
    case False
    then have k: "k \<in> set ks" using Cons.prems(6) by simp
    have ja: "j \<notin> B a" using Cons.prems(4)[of k a] k False Cons.prems(7) by auto
    have "fold f ks (f a rd) ! j = G k j (f a rd ! j)"
    proof (rule Cons.IH)
      show "j < length (f a rd)" using Cons.prems(1)[of a rd] Cons.prems(8) by simp
    qed (use Cons.prems k in auto)
    then show ?thesis using Cons.prems(2)[of a j rd] ja by simp
  qed
qed

lemma pixel_index_inj:
  fixes w :: nat
  assumes "x < w" "x' < w" "y * w + x = y' * w + x'"
  shows "y = y' \<and> x = x'"
proof -
  have "(y * w + x) div w = (y' * w + x') div w" using assms(3) by simp
  then have "y = y'" using assms(1,2) by simp
  then show ?thesis using assms(3) by simp
qed

lemma pixelBlock_disjoint:
  assumes "k \<in> set (List.product [0 ..< h] [0 ..< w])"
          "k' \<in> set (List.product [0 ..< h] [0 ..< w])" "k \<noteq> k'"
  shows "pixelBlock w k \<inter> pixelBlock w k' = {}"
proof -
  obtain y x y' x' where k: "k = (y, x)" "k' = (y', x')" by (cases k, cases k') auto
  have lt: "x < w" "x' < w" using assms k by auto
  have "y * w + x \<noteq> y' * w + x'" using pixel_index_inj[OF lt] assms(3) k by auto
  then show ?thesis unfolding k pixelBlock_def by auto
qed

lemma writePixel_length: "length (writePixel i d a rd) = length rd"
  by (simp add: writePixel_def)

lemma writePixel_frame:
  assumes "j \<notin> {i ..< i + 4}"
  shows "writePixel i d a rd ! j = rd ! j"
proof -
  have "j \<noteq> i" "j \<noteq> i + 1" "j \<noteq> i + 2" "j \<noteq> i + 3" using assms by auto
  then show ?thesis by (simp add: writePixel_def)
qed

lemma writePixel_nth:
  assumes "j \<in> {i ..< i + 4}" "j < length rd"
  shows "writePixel i d a rd ! j = (if j = i + 3 then a else storeByte d)"
proof -
  have "j = i \<or> j = i + 1 \<or> j = i + 2 \<or> j = i + 3" using assms(1) by auto
  then show ?thesis using assms(2) by (auto simp: writePixel_def nth_list_update)
qed

lemma pixel_loop_nth:
  assumes body: "\<And>y x rd. body y x rd = writePixel ((y * w + x) * 4) (D y x) (A y x) rd"
      and len: "length rd = w * h * 4"
      and xy: "x < w" "y < h" and c: "c < 4"
  shows "fold (\<lambda>y. fold (body y) [0 ..< w]) [0 ..< h] rd ! ((y * w + x) * 4 + c)
           = (if c = 3 then A y x else storeByte (D y x))"
proof -
  let ?ks = "List.product [0 ..< h] [0 ..< w]"
  let ?f = "\<lambda>(y, x). body y x"
  let ?G = "\<lambda>(y, x) j (old::nat). if j = (y * w + x) * 4 + 3 then A y x else storeByte (D y x)"
  let ?j = "(y * w + x) * 4 + c"
  have "y * w + x < y * w + w" using xy by simp
  also have "\<dots> = (y + 1) * w" by simp
  also have "\<dots> \<le> h * w" using xy by (intro mult_le_mono1) simp
  finally have "y * w + x < w * h" by (simp add: mult.commute)
  then have j: "?j < length rd" using c len by simp
  have "fold ?f ?ks rd ! ?j = ?G (y, x) ?j (rd ! ?j)"
  proof (rule fold_block[where B = "pixelBlock w"])
    show "distinct ?ks" by (simp add: distinct_product)
    show "(y, x) \<in> set ?ks" using xy by simp
    show "?j \<in> pixelBlock w (y, x)" using c by (simp add: pixelBlock_def)
    show "?j < length rd" by (rule j)
  next
    fix k and rd' :: "nat list" assume "k \<in> set ?ks"
    show "length (?f k rd') = length rd'"
      by (cases k) (simp add: body writePixel_length)
  next
    fix k and rd' :: "nat list" and j assume a: "k \<in> set ?ks" "j \<notin> pixelBlock w k"
    obtain y' x' where k: "k = (y', x')" by (cases k)
    show "?f k rd' ! j = rd' ! j"
      using a(2) unfolding k by (simp add: body writePixel_frame pixelBlock_def)
  next
    fix k and rd' :: "nat list" and j
    assume a: "k \<in> set ?ks" "j \<in> pixelBlock w k" "j < length rd'"
    obtain y' x' where k: "k = (y', x')" by (cases k)
    show "?f k rd' ! j = ?G k j (rd' ! j)"
      using a(2,3) unfolding k by (simp add: body writePixel_nth pixelBlock_def)
  next
    fix k k' assume "k \<in> set ?ks" "k' \<in> set ?ks" "k \<noteq> k'"
    then show "pixelBlock w k \<inter> pixelBlock w k' = {}" by (rule pixelBlock_disjoint)
  qed
  then show ?thesis using c by (simp add: fold_nested_product)
qed

lemma pixel_loop_length:
  assumes body: "\<And>y x rd. body y x rd = writePixel ((y * w + x) * 4) (D y x) (A y x) rd"
  shows "length (fold (\<lambda>y. fold (body y) [0 ..< w]) [0 ..< h] rd) = length rd"
  by (intro fold_length) (simp add: body writePixel_length)

lemma verticalPixel_alt:
  "verticalPixel img y x rd =
     writePixel ((y * width img + x) * 4)
       (if data img ! ((y * width img + x) * 4 + 3) > 32 then 255 else 0)
       (if data img ! ((y * width img + x) * 4 + 3) > 32
        then data img ! ((y * width img + x) * 4 + 3) else 0) rd"
  by (simp add: verticalPixel_def Let_def)

lemma vertical_result:
  assumes "edgeType opts = vertical"
  shows "processImageWithEdges img opts =
     Some \<lparr>width = width img, height = height img,
           data = fold (\<lambda>y. fold (verticalPixel img y) [0 ..< width img]) [0 ..< height img]
                       (replicate (width img * height img * 4) 0)\<rparr>"
  using assms by (simp add: processImageWithEdges_def Let_def)

lemma sqrt2_ge_1: "1 \<le> sqrt 2"
  by simp

lemma finite_candidates: "finite (candidates M)"
proof -
  let ?K = "nat \<lfloor>M\<rfloor>"
  have "candidates M \<subseteq> (\<lambda>(a, b). real a + real b * sqrt 2) ` ({.. ?K} \<times> {.. ?K})"
  proof
    fix s assume "s \<in> candidates M"
    then obtain a b :: nat where s: "s = real a + real b * sqrt 2" "s \<le> M"
      by (auto simp: candidates_def lattice_def)
    have b0: "0 \<le> real b * sqrt 2" by simp
    have "real b * 1 \<le> real b * sqrt 2" by (intro mult_left_mono) simp_all
    then have "real b \<le> M" "real a \<le> M" using s b0 by linarith+
    then have "a \<le> ?K" "b \<le> ?K" by (simp_all add: le_nat_floor)
    then show "s \<in> (\<lambda>(a, b). real a + real b * sqrt 2) ` ({.. ?K} \<times> {.. ?K})"
      using s(1) by auto
  qed
  then show ?thesis by (rule finite_subset) simp
qed

lemma pot_decrease:
  assumes "s \<in> candidates M" "s < v"
  shows "pot M s < pot M v"
  unfolding pot_def
proof (rule psubset_card_mono)
  show "finite {t \<in> candidates M. t < v}" using finite_candidates by simp
  show "{t \<in> candidates M. t < s} \<subset> {t \<in> candidates M. t < v}" using assms by auto
qed

lemma potential_update:
  assumes "i < length ds" "s \<in> candidates M" "s < ds ! i"
  shows "potential M (ds[i := s]) < potential M ds"
proof -
  have "pot M s < pot M (ds ! i)" using assms(2,3) by (rule pot_decrease)
  moreover have "pot M (ds ! i) \<le> sum_list (map (pot M) ds)"
    using assms(1) by (intro member_le_sum_list) simp_all
  moreover have "sum_list ((map (pot M) ds)[i := pot M s])
                   = sum_list (map (pot M) ds) + pot M s - map (pot M) ds ! i"
    using assms(1) by (intro sum_list_update) simp
  ultimately show ?thesis using assms(1) by (simp add: potential_def map_update)
qed

lemma lattice_step:
  assumes "q \<in> lattice" "(dx, dy) \<in> set neighbourOffsets"
  shows "q + sqrt (real_of_int (dx * dx + dy * dy)) \<in> lattice"
proof -
  obtain a b :: nat where q: "q = real a + real b * sqrt 2"
    using assms(1) by (auto simp: lattice_def)
  have "dx * dx + dy * dy = 1 \<or> dx * dx + dy * dy = 2"
    using assms(2) by (auto simp: neighbourOffsets_def)
  then show ?thesis
  proof
    assume "dx * dx + dy * dy = 1"
    then have "q + sqrt (real_of_int (dx * dx + dy * dy)) = real (a + 1) + real b * sqrt 2"
      using q by simp
    then show ?thesis unfolding lattice_def by blast
  next
    assume "dx * dx + dy * dy = 2"
    then have "q + sqrt (real_of_int (dx * dx + dy * dy)) = real a + real (b + 1) * sqrt 2"
      using q by (simp add: algebra_simps)
    then show ?thesis unfolding lattice_def by blast
  qed
qed

lemma zero_in_lattice: "0 \<in> lattice"
proof -
  have "(0::real) = real 0 + real 0 * sqrt 2" by simp
  then show ?thesis unfolding lattice_def by blast
qed

lemma inBounds_index:
  assumes "inBounds w h nx ny"
  shows "nat (ny * int w + nx) < w * h"
    and "nat (ny * int w + nx) = nat ny * w + nat nx" and "nat nx < w" and "nat ny < h"
proof -
  have b: "0 \<le> nx" "nx < int w" "0 \<le> ny" "ny < int h" using assms by (simp_all add: inBounds_def)
  then show x: "nat nx < w" and y: "nat ny < h" by simp_all
  have "ny * int w + nx = int (nat ny * w + nat nx)" using b by simp
  then show e: "nat (ny * int w + nx) = nat ny * w + nat nx" by (simp only: nat_int)
  have "nat ny * w + nat nx < nat ny * w + w" using x by simp
  also have "\<dots> = (nat ny + 1) * w" by simp
  also have "\<dots> \<le> h * w" using y by (intro mult_le_mono1) simp
  finally show "nat (ny * int w + nx) < w * h" using e by (simp add: mult.commute)
qed

lemma relax_measure:
  assumes "length ds = w * h" "queueInLattice q" "qd \<in> lattice" "off \<in> set neighbourOffsets"
      and "relax contour w h M x y qd off (ds, q) = (ds', q')"
  shows "length ds' = w * h \<and> queueInLattice q'
       \<and> 2 * potential M ds' + length q' \<le> 2 * potential M ds + length q
       \<and> length q \<le> length q'"
proof -
  obtain dx dy where off: "off = (dx, dy)" by (cases off)
  let ?nx = "int x + dx" and ?ny = "int y + dy"
  let ?n = "nat (?ny * int w + ?nx)"
  let ?new = "qd + sqrt (real_of_int (dx * dx + dy * dy))"
  show ?thesis
  proof (cases "inBounds w h ?nx ?ny \<and> contour ! ?n \<and> ?new < ds ! ?n \<and> ?new \<le> M")
    case True
    then have r: "ds' = ds[?n := ?new]" "q' = q @ [(nat ?nx, nat ?ny, ?new)]"
      using assms(5) unfolding off by (simp_all add: relax_def Let_def)
    have n: "?n < length ds" using True inBounds_index(1)[of w h ?nx ?ny] assms(1) by simp
    have l: "?new \<in> lattice" using assms(3,4) unfolding off by (rule lattice_step)
    then have c: "?new \<in> candidates M" using True by (simp add: candidates_def)
    have "potential M ds' < potential M ds"
      unfolding r using n c True by (intro potential_update) simp_all
    then show ?thesis using assms(1,2) l unfolding r by (simp add: queueInLattice_def)
  next
    case False
    then have "ds' = ds" "q' = q"
      using assms(5) unfolding off by (auto simp: relax_def Let_def split: if_splits)
    then show ?thesis using assms(1,2) by simp
  qed
qed

lemma relax_fold_measure:
  assumes "set offs \<subseteq> set neighbourOffsets" "length ds = w * h" "queueInLattice q" "qd \<in> lattice"
      and "fold (relax contour w h M x y qd) offs (ds, q) = (ds', q')"
  shows "length ds' = w * h \<and> queueInLattice q'
       \<and> 2 * potential M ds' + length q' \<le> 2 * potential M ds + length q
       \<and> length q \<le> length q'"
  using assms
proof (induction offs arbitrary: ds q)
  case Nil
  then show ?case by simp
next
  case (Cons off offs)
  obtain ds1 q1 where s1: "relax contour w h M x y qd off (ds, q) = (ds1, q1)"
    by (cases "relax contour w h M x y qd off (ds, q)")
  have off: "off \<in> set neighbourOffsets" using Cons.prems(1) by simp
  have m1: "length ds1 = w * h \<and> queueInLattice q1
       \<and> 2 * potential M ds1 + length q1 \<le> 2 * potential M ds + length q
       \<and> length q \<le> length q1"
    using Cons.prems(2,3,4) off s1 by (rule relax_measure)
  have "length ds' = w * h \<and> queueInLattice q'
       \<and> 2 * potential M ds' + length q' \<le> 2 * potential M ds1 + length q1
       \<and> length q1 \<le> length q'"
  proof (rule Cons.IH)
    show "fold (relax contour w h M x y qd) offs (ds1, q1) = (ds', q')"
      using Cons.prems(5) s1 by simp
  qed (use Cons.prems m1 in auto)
  then show ?case using m1 by linarith
qed

lemma bfsStep_measure:
  assumes "bfsInv w h st" "snd (snd st) < length (fst (snd st))"
  shows "bfsInv w h (bfsStep contour w h M st)
       \<and> bfsMeasure M (bfsStep contour w h M st) < bfsMeasure M st"
proof -
  obtain ds q i where st: "st = (ds, q, i)" by (cases st)
  have i: "i < length q" and inv: "length ds = w * h" "queueInLattice q"
    using assms unfolding st by (simp_all add: bfsInv_def)
  obtain x y qd where e: "q ! i = (x, y, qd)" by (cases "q ! i")
  have qd: "qd \<in> lattice" using inv(2) i e unfolding queueInLattice_def
    by (metis nth_mem snd_conv)
  show ?thesis
  proof (cases "qd \<ge> M")
    case True
    then have "bfsStep contour w h M st = (ds, q, i + 1)"
      unfolding st by (simp add: bfsStep_def e)
    then show ?thesis using i inv unfolding st by (simp add: bfsInv_def bfsMeasure_def)
  next
    case False
    obtain ds' q' where f: "fold (relax contour w h M x y qd) neighbourOffsets (ds, q) = (ds', q')"
      by (cases "fold (relax contour w h M x y qd) neighbourOffsets (ds, q)")
    have m: "length ds' = w * h \<and> queueInLattice q'
       \<and> 2 * potential M ds' + length q' \<le> 2 * potential M ds + length q
       \<and> length q \<le> length q'"
      using _ inv qd f by (rule relax_fold_measure) simp
    have s: "bfsStep contour w h M st = (ds', q', i + 1)"
      unfolding st using False by (simp add: bfsStep_def e f)
    have "2 * potential M ds' + (length q' - (i + 1)) < 2 * potential M ds + (length q - i)"
      using i m by linarith
    then show ?thesis using m s[unfolded st] unfolding st by (simp add: bfsInv_def bfsMeasure_def)
  qed
qed

text \<open>
  An invariant rule for the propagation loop: the loop returns, and an invariant that
  every turn keeps holds of the final state.
\<close>

lemma bfsLoop_rule:
  assumes "I st" "bfsInv w h st"
      and "\<And>s. I s \<Longrightarrow> bfsInv w h s \<Longrightarrow> snd (snd s) < length (fst (snd s))
               \<Longrightarrow> I (bfsStep contour w h M s)"
  shows "\<exists>ds q i. bfsLoop contour w h M st = Some ds \<and> I (ds, q, i) \<and> bfsInv w h (ds, q, i)
                 \<and> \<not> i < length q"
  using assms(1,2)
proof (induction "bfsMeasure M st" arbitrary: st rule: less_induct)
  case less
  show ?case
  proof (cases "snd (snd st) < length (fst (snd st))")
    case True
    let ?st' = "bfsStep contour w h M st"
    have m: "bfsInv w h ?st' \<and> bfsMeasure M ?st' < bfsMeasure M st"
      using less.prems(2) True by (rule bfsStep_measure)
    have "\<exists>ds q i. bfsLoop contour w h M ?st' = Some ds \<and> I (ds, q, i) \<and> bfsInv w h (ds, q, i)
                 \<and> \<not> i < length q"
      using m assms(3)[OF less.prems True] by (intro less.hyps) simp_all
    then show ?thesis using True by (subst bfsLoop.simps) simp
  next
    case False
    obtain ds q i where st: "st = (ds, q, i)" by (cases st)
    have "bfsLoop contour w h M st = Some ds"
      using False unfolding st by (subst bfsLoop.simps) simp
    then show ?thesis using less.prems False unfolding st by auto
  qed
qed

section \<open>The depth raster is always produced\<close>

lemma seedPixel_inv:
  assumes "length ds = n \<and> queueInLattice q"
  shows "case seedPixel contour w h M y x (ds, q) of
           (ds', q') \<Rightarrow> length ds' = n \<and> queueInLattice q'"
  using assms zero_in_lattice by (simp add: seedPixel_def Let_def queueInLattice_def)

lemma seedPass_inv:
  "case seedPass contour w h M of (ds, q) \<Rightarrow> length ds = w * h \<and> queueInLattice q"
  unfolding seedPass_def
proof (rule fold_invariant, rule fold_invariant)
  show "case (replicate (w * h) (- 1), []) of
          (ds, q) \<Rightarrow> length ds = w * h \<and> queueInLattice q"
    by (simp add: queueInLattice_def)
next
  fix x y :: nat and s :: "real list \<times> QueueEntry list"
  assume "case s of (ds, q) \<Rightarrow> length ds = w * h \<and> queueInLattice q"
  then show "case seedPixel contour w h M y x s of
          (ds, q) \<Rightarrow> length ds = w * h \<and> queueInLattice q"
    using seedPixel_inv[where n = "w * h" and contour = contour and w = w and h = h and M = M
                          and y = y and x = x]
    by (cases s) simp
qed

lemma distanceField_returns:
  "\<exists>df. calculateDistanceFieldFast contour w h M = Some df \<and> length df = w * h"
proof -
  obtain ds q where s: "seedPass contour w h M = (ds, q)" by (cases "seedPass contour w h M")
  have inv: "bfsInv w h (ds, q, 0)" using seedPass_inv[where contour = contour and w = w and h = h and M = M] s
    by (simp add: bfsInv_def)
  have "\<exists>ds' q' i. bfsLoop contour w h M (ds, q, 0) = Some ds' \<and> True
          \<and> bfsInv w h (ds', q', i) \<and> \<not> i < length q'"
    using _ inv by (rule bfsLoop_rule[where I = "\<lambda>_. True"]) simp_all
  then show ?thesis by (auto simp: calculateDistanceFieldFast_def s bfsInv_def)
qed

lemma profilePixel_alt:
  "profilePixel img opts df y x rd =
     writePixel ((y * width img + x) * 4)
       (if data img ! ((y * width img + x) * 4 + 3) > 32 \<and> df ! (y * width img + x) \<ge> 0
        then (case edgeType opts of
                rounded \<Rightarrow> calculateRoundedDepth (df ! (y * width img + x)) (edgeWidth opts)
              | chamfered \<Rightarrow> calculateChamferedDepth (df ! (y * width img + x)) (edgeWidth opts)
                               (chamferAngleOrDefault opts)
              | vertical \<Rightarrow> 0)
        else 0)
       (if data img ! ((y * width img + x) * 4 + 3) \<le> 32 then 0
        else data img ! ((y * width img + x) * 4 + 3)) rd"
  by (simp add: profilePixel_def Let_def)

lemma profile_result:
  assumes "edgeType opts \<noteq> vertical"
  shows "\<exists>df. calculateDistanceFieldFast (extractSmartContour img) (width img) (height img)
                 (edgeWidth opts) = Some df
            \<and> processImageWithEdges img opts =
     Some \<lparr>width = width img, height = height img,
           data = fold (\<lambda>y. fold (profilePixel img opts df y) [0 ..< width img])
                       [0 ..< height img] (replicate (width img * height img * 4) 0)\<rparr>"
proof -
  obtain df where "calculateDistanceFieldFast (extractSmartContour img) (width img) (height img)
                 (edgeWidth opts) = Some df"
    using distanceField_returns by blast
  then show ?thesis using assms by (simp add: processImageWithEdges_def Let_def)
qed

text \<open>
  What \<^verbatim>\<open>processImageWithEdges\<close> stores at one pixel, in every style: the alpha byte
  is 0 for alpha at most 32 and the input's alpha otherwise; the three colour bytes
  are equal, and 0 for alpha at most 32.
\<close>

lemma processImageWithEdges_pixel:
  assumes "x < width img" "y < height img"
  shows "\<exists>res. processImageWithEdges img opts = Some res
           \<and> width res = width img \<and> height res = height img
           \<and> length (data res) = width img * height img * 4
           \<and> pixelByte res x y 3 =
               (if pixelByte img x y 3 \<le> 32 then 0 else pixelByte img x y 3)
           \<and> (pixelByte img x y 3 \<le> 32 \<longrightarrow>
                pixelByte res x y 0 = 0 \<and> pixelByte res x y 1 = 0 \<and> pixelByte res x y 2 = 0)"
proof (cases "edgeType opts = vertical")
  case True
  let ?blank = "replicate (width img * height img * 4) (0::nat)"
  let ?d = "fold (\<lambda>y. fold (verticalPixel img y) [0 ..< width img]) [0 ..< height img] ?blank"
  have n: "\<And>c. c < 4 \<Longrightarrow> ?d ! ((y * width img + x) * 4 + c) =
      (if c = 3 then (if data img ! ((y * width img + x) * 4 + 3) > 32
                      then data img ! ((y * width img + x) * 4 + 3) else 0)
       else storeByte (if data img ! ((y * width img + x) * 4 + 3) > 32 then 255 else 0))"
    by (rule pixel_loop_nth[where body = "verticalPixel img", OF verticalPixel_alt _ assms])
       simp_all
  have l: "length ?d = width img * height img * 4"
    using pixel_loop_length[where body = "verticalPixel img" and rd = ?blank,
                            OF verticalPixel_alt]
    by simp
  show ?thesis
    using vertical_result[OF True, of img] n[of 0] n[of 1] n[of 2] n[of 3] l
    by (simp add: pixelByte_def storeByte_def)
next
  case False
  obtain df where r: "processImageWithEdges img opts =
     Some \<lparr>width = width img, height = height img,
           data = fold (\<lambda>y. fold (profilePixel img opts df y) [0 ..< width img])
                       [0 ..< height img] (replicate (width img * height img * 4) 0)\<rparr>"
    using profile_result[OF False] by blast
  let ?blank = "replicate (width img * height img * 4) (0::nat)"
  let ?d = "fold (\<lambda>y. fold (profilePixel img opts df y) [0 ..< width img])
                 [0 ..< height img] ?blank"
  let ?a = "data img ! ((y * width img + x) * 4 + 3)"
  have n: "\<And>c. c < 4 \<Longrightarrow> ?d ! ((y * width img + x) * 4 + c) =
      (if c = 3 then (if ?a \<le> 32 then 0 else ?a)
       else storeByte (if ?a > 32 \<and> df ! (y * width img + x) \<ge> 0
        then (case edgeType opts of
                rounded \<Rightarrow> calculateRoundedDepth (df ! (y * width img + x)) (edgeWidth opts)
              | chamfered \<Rightarrow> calculateChamferedDepth (df ! (y * width img + x)) (edgeWidth opts)
                               (chamferAngleOrDefault opts)
              | vertical \<Rightarrow> 0)
        else 0))"
    by (rule pixel_loop_nth[where body = "profilePixel img opts df", OF profilePixel_alt _ assms])
       simp_all
  have l: "length ?d = width img * height img * 4"
    using pixel_loop_length[where body = "profilePixel img opts df" and rd = ?blank,
                            OF profilePixel_alt]
    by simp
  show ?thesis
    using r n[of 0] n[of 1] n[of 2] n[of 3] l
    by (simp add: pixelByte_def storeByte_def)
qed

lemma processImageWithEdges_returns:
  "\<exists>res. processImageWithEdges img opts = Some res
         \<and> width res = width img \<and> height res = height img
         \<and> length (data res) = width img * height img * 4"
proof (cases "edgeType opts = vertical")
  case True
  show ?thesis
    using vertical_result[OF True, of img]
          pixel_loop_length[where body = "verticalPixel img"
                              and rd = "replicate (width img * height img * 4) 0",
                            OF verticalPixel_alt]
    by simp
next
  case False
  obtain df where r: "processImageWithEdges img opts =
     Some \<lparr>width = width img, height = height img,
           data = fold (\<lambda>y. fold (profilePixel img opts df y) [0 ..< width img])
                       [0 ..< height img] (replicate (width img * height img * 4) 0)\<rparr>"
    using profile_result[OF False] by blast
  show ?thesis
    using r pixel_loop_length[where body = "profilePixel img opts df"
                              and rd = "replicate (width img * height img * 4) 0",
                            OF profilePixel_alt]
    by simp
qed

lemma relax_out_of_bounds:
  "\<not> inBounds w h (int x + dx) (int y + dy) \<Longrightarrow>
   relax contour w h M x y qd (dx, dy) s = s"
  by (cases s) (simp add: relax_def Let_def)

lemma distanceField_single_pixel:
  "calculateDistanceFieldFast [True] (Suc 0) (Suc 0) M = Some [0]"
proof -
  have s: "seedPass [True] (Suc 0) (Suc 0) M = ([0], [(0, 0, 0)])"
    by (simp add: seedPass_def seedPixel_def isEdge_def neighbourOffsets_def inBounds_def)
  have f: "fold (relax [True] (Suc 0) (Suc 0) M 0 0 0) neighbourOffsets ([0], [(0, 0, 0)])
             = ([0], [(0, 0, 0)])"
    by (simp add: neighbourOffsets_def relax_out_of_bounds inBounds_def)
  have st: "bfsStep [True] (Suc 0) (Suc 0) M ([0], [(0, 0, 0)], 0) = ([0], [(0, 0, 0)], Suc 0)"
    by (simp add: bfsStep_def f)
  have "bfsLoop [True] (Suc 0) (Suc 0) M ([0], [(0, 0, 0)], Suc 0) = Some [0]"
    by (subst bfsLoop.simps) simp
  then have "bfsLoop [True] (Suc 0) (Suc 0) M ([0], [(0, 0, 0)], 0) = Some [0]"
    by (subst bfsLoop.simps) (simp add: st)
  then show ?thesis by (simp add: calculateDistanceFieldFast_def s)
qed

section \<open>Claims on the depth raster\<close>

text \<open>
  C4. For the vertical style, on every raster, every pixel's depth (each of R, G, B) is
  255 if its alpha exceeds 32 and 0 otherwise, so only 0 and 255 occur; the result is
  the same for all edge widths and chamfer angles. (The vertical branch is the pixel
  loop alone, see \<open>vertical_result\<close>: the distance field does not occur in it.)
\<close>

theorem C4_vertical:
  assumes "wellFormed img" "edgeType opts = vertical" "edgeType opts' = vertical"
      and "x < width img" "y < height img" "c < 3"
  shows "\<exists>res. processImageWithEdges img opts = Some res
           \<and> width res = width img \<and> height res = height img
           \<and> pixelByte res x y c = (if pixelByte img x y 3 > 32 then 255 else 0)
           \<and> pixelByte res x y c \<in> {0, 255}
           \<and> processImageWithEdges img opts' = Some res"
proof -
  let ?res = "\<lparr>width = width img, height = height img,
           data = fold (\<lambda>y. fold (verticalPixel img y) [0 ..< width img]) [0 ..< height img]
                       (replicate (width img * height img * 4) 0)\<rparr>"
  have c4: "c < 4" using assms(6) by simp
  have "pixelByte ?res x y c = (if pixelByte img x y 3 > 32 then 255 else 0)"
    unfolding pixelByte_def
    using pixel_loop_nth[where body = "verticalPixel img"
                           and rd = "replicate (width img * height img * 4) 0",
                         OF verticalPixel_alt _ assms(4,5) c4] assms(6)
    by (simp add: storeByte_def)
  then show ?thesis
    using vertical_result[OF assms(2)] vertical_result[OF assms(3)] by simp
qed

theorem C4_vertical_witness:
  "\<exists>res. processImageWithEdges \<lparr>width = 1, height = 1, data = [10, 20, 30, 200]\<rparr>
            \<lparr>edgeType = vertical, edgeWidth = 20, chamferAngle = Some 45\<rparr> = Some res
       \<and> pixelByte res 0 0 0 = 255
       \<and> processImageWithEdges \<lparr>width = 1, height = 1, data = [10, 20, 30, 200]\<rparr>
            \<lparr>edgeType = vertical, edgeWidth = 3, chamferAngle = None\<rparr> = Some res"
  using C4_vertical[of "\<lparr>width = 1, height = 1, data = [10, 20, 30, 200]\<rparr>"
                       "\<lparr>edgeType = vertical, edgeWidth = 20, chamferAngle = Some 45\<rparr>"
                       "\<lparr>edgeType = vertical, edgeWidth = 3, chamferAngle = None\<rparr>" 0 0 0]
  by (auto simp: wellFormed_def pixelByte_def)

text \<open>
  C5. In all three styles and on every raster, a pixel whose input alpha is at most 32
  gets depth 0 in R, G and B and alpha 0 in the depth raster that
  \<^verbatim>\<open>processImageWithEdges\<close> returns.
\<close>

theorem C5_outside_pixels:
  assumes "wellFormed img" "x < width img" "y < height img" "pixelByte img x y 3 \<le> 32"
  shows "\<exists>res. processImageWithEdges img opts = Some res
           \<and> width res = width img \<and> height res = height img
           \<and> pixelByte res x y 0 = 0 \<and> pixelByte res x y 1 = 0
           \<and> pixelByte res x y 2 = 0 \<and> pixelByte res x y 3 = 0"
  using processImageWithEdges_pixel[OF assms(2,3), of opts] assms(4) by auto

theorem C5_outside_pixels_witness:
  "\<exists>res. processImageWithEdges \<lparr>width = 1, height = 1, data = [10, 20, 30, 32]\<rparr>
            \<lparr>edgeType = chamfered, edgeWidth = 20, chamferAngle = Some 45\<rparr> = Some res
       \<and> pixelByte res 0 0 0 = 0 \<and> pixelByte res 0 0 3 = 0"
  using C5_outside_pixels[of "\<lparr>width = 1, height = 1, data = [10, 20, 30, 32]\<rparr>" 0 0
                       "\<lparr>edgeType = chamfered, edgeWidth = 20, chamferAngle = Some 45\<rparr>"]
  by (auto simp: wellFormed_def pixelByte_def)

text \<open>
  C10. In all three styles, a pixel whose input alpha exceeds 32 keeps its alpha byte
  unchanged in the depth raster (it is not forced to 255); so every value \<open>a\<close> in
  33..255 occurs as an output alpha.
\<close>

theorem C10_alpha_kept:
  assumes "wellFormed img" "x < width img" "y < height img" "pixelByte img x y 3 > 32"
  shows "(\<exists>res. processImageWithEdges img opts = Some res
            \<and> pixelByte res x y 3 = pixelByte img x y 3)
       \<and> (32 < a \<and> a < 256 \<longrightarrow>
            (\<exists>img' res'. wellFormed img' \<and> processImageWithEdges img' opts = Some res'
               \<and> pixelByte res' 0 0 3 = a))"
proof (intro conjI impI)
  show "\<exists>res. processImageWithEdges img opts = Some res
            \<and> pixelByte res x y 3 = pixelByte img x y 3"
    using processImageWithEdges_pixel[OF assms(2,3), of opts] assms(4) by auto
next
  assume a: "32 < a \<and> a < 256"
  let ?img = "\<lparr>width = 1, height = 1, data = [0, 0, 0, a]\<rparr>"
  have "wellFormed ?img" using a by (simp add: wellFormed_def)
  moreover have "\<exists>res'. processImageWithEdges ?img opts = Some res' \<and> pixelByte res' 0 0 3 = a"
    using processImageWithEdges_pixel[of 0 ?img 0 opts] a by (auto simp: pixelByte_def)
  ultimately show "\<exists>img' res'. wellFormed img' \<and> processImageWithEdges img' opts = Some res'
               \<and> pixelByte res' 0 0 3 = a"
    by blast
qed

theorem C10_alpha_kept_witness:
  "\<exists>res. processImageWithEdges \<lparr>width = 1, height = 1, data = [10, 20, 30, 100]\<rparr>
            \<lparr>edgeType = rounded, edgeWidth = 20, chamferAngle = None\<rparr> = Some res
       \<and> pixelByte res 0 0 3 = 100"
  using C10_alpha_kept[of "\<lparr>width = 1, height = 1, data = [10, 20, 30, 100]\<rparr>" 0 0
                          "\<lparr>edgeType = rounded, edgeWidth = 20, chamferAngle = None\<rparr>" 100]
  by (auto simp: wellFormed_def pixelByte_def)

text \<open>
  C6 (as amended). \<^verbatim>\<open>processImageWithEdges\<close> checks neither parameter and never fails:
  for every raster and all options, also an edge width of zero or below and any chamfer
  angle, it returns a depth raster of the input's dimensions; a chamfer angle that is
  missing or zero is replaced by 45.
\<close>

theorem C6_no_parameter_check:
  "(\<exists>res. processImageWithEdges img opts = Some res
         \<and> width res = width img \<and> height res = height img
         \<and> length (data res) = width img * height img * 4)
   \<and> processImageWithEdges img (opts\<lparr>chamferAngle := Some 0\<rparr>)
       = processImageWithEdges img (opts\<lparr>chamferAngle := Some 45\<rparr>)
   \<and> processImageWithEdges img (opts\<lparr>chamferAngle := None\<rparr>)
       = processImageWithEdges img (opts\<lparr>chamferAngle := Some 45\<rparr>)"
proof (intro conjI)
  show "\<exists>res. processImageWithEdges img opts = Some res
         \<and> width res = width img \<and> height res = height img
         \<and> length (data res) = width img * height img * 4"
    by (rule processImageWithEdges_returns)
  have p0: "\<And>df. profilePixel img (opts\<lparr>chamferAngle := Some 0\<rparr>) df
        = profilePixel img (opts\<lparr>chamferAngle := Some 45\<rparr>) df"
    by (intro ext) (simp add: profilePixel_alt chamferAngleOrDefault_def split: EdgeType.split)
  have pN: "\<And>df. profilePixel img (opts\<lparr>chamferAngle := None\<rparr>) df
        = profilePixel img (opts\<lparr>chamferAngle := Some 45\<rparr>) df"
    by (intro ext) (simp add: profilePixel_alt chamferAngleOrDefault_def split: EdgeType.split)
  show "processImageWithEdges img (opts\<lparr>chamferAngle := Some 0\<rparr>)
       = processImageWithEdges img (opts\<lparr>chamferAngle := Some 45\<rparr>)"
    by (simp add: processImageWithEdges_def Let_def p0 cong: option.case_cong)
  show "processImageWithEdges img (opts\<lparr>chamferAngle := None\<rparr>)
       = processImageWithEdges img (opts\<lparr>chamferAngle := Some 45\<rparr>)"
    by (simp add: processImageWithEdges_def Let_def pN cong: option.case_cong)
qed

text \<open>
  Counterexample to C6 as stated: with edge width 0 (rounded), and with a chamfer angle
  of 120 degrees (chamfered), the call returns a depth raster instead of failing.
\<close>

theorem C6_returns_raster_for_invalid_parameters:
  "processImageWithEdges \<lparr>width = 1, height = 1, data = [0, 0, 0, 255]\<rparr>
      \<lparr>edgeType = rounded, edgeWidth = 0, chamferAngle = None\<rparr>
     = Some \<lparr>width = 1, height = 1, data = [255, 255, 255, 255]\<rparr>
   \<and> processImageWithEdges \<lparr>width = 1, height = 1, data = [0, 0, 0, 255]\<rparr>
      \<lparr>edgeType = chamfered, edgeWidth = 5, chamferAngle = Some 120\<rparr>
     = Some \<lparr>width = 1, height = 1, data = [0, 0, 0, 255]\<rparr>"
proof -
  have c: "extractSmartContour \<lparr>width = Suc 0, height = Suc 0, data = [0, 0, 0, 255]\<rparr>
             = [True]"
    by (simp add: extractSmartContour_def)
  have u: "\<And>a b c d. (replicate 4 (0::nat))[0 := a, Suc 0 := b, Suc (Suc 0) := c, 3 := d]
             = [a, b, c, d]"
    by (simp add: numeral_eq_Suc)
  show ?thesis
    by (simp add: processImageWithEdges_def Let_def c distanceField_single_pixel
          profilePixel_def writePixel_def storeByte_def calculateRoundedDepth_def
          calculateChamferedDepth_def chamferAngleOrDefault_def u)
qed

section \<open>Mesh topology\<close>

lemma fold_grows:
  assumes "\<And>x s. m (f x s) = m s + k"
  shows "m (fold f xs s) = m s + k * length xs"
  using assms by (induction xs arbitrary: s) simp_all

lemma nested_fold_grows:
  assumes "\<And>y x s. m (f y x s) = m s + k"
  shows "m (fold (\<lambda>y. fold (f y) xs) ys s) = m s + k * length xs * length ys"
proof -
  have "\<And>y s. m (fold (f y) xs s) = m s + k * length xs"
    by (rule fold_grows) (rule assms)
  then have "m (fold (\<lambda>y. fold (f y) xs) ys s) = m s + (k * length xs) * length ys"
    by (rule fold_grows)
  then show ?thesis by simp
qed

lemma gridVertex_grows:
  "length (fst (gridVertex imageData mh w h ow oh step gw gh y x s)) = length (fst s) + 3"
  by (cases s) (simp add: gridVertex_def Let_def)

lemma quadFaces_grows: "length (quadFaces gw y x fs) = length fs + 6"
  by (simp add: quadFaces_def Let_def)

lemma quadFaces_bound:
  assumes "x < gw - 1" "y < gh - 1" "\<forall>i \<in> set fs. i < gw * gh"
  shows "\<forall>i \<in> set (quadFaces gw y x fs). i < gw * gh"
proof -
  have x: "x + 1 < gw" and y: "y + 1 < gh" using assms(1,2) by simp_all
  have "(y + 1) * gw + (x + 1) < (y + 1) * gw + gw" using x by simp
  also have "\<dots> = (y + 2) * gw" by simp
  also have "\<dots> \<le> gh * gw" using y by (intro mult_le_mono1) simp
  finally have br: "(y + 1) * gw + (x + 1) < gw * gh" by (simp add: mult.commute)
  have "y * gw \<le> (y + 1) * gw" by simp
  then have "y * gw + x < gw * gh" "y * gw + (x + 1) < gw * gh" "(y + 1) * gw + x < gw * gh"
    using br by linarith+
  then show ?thesis using br assms(3) by (auto simp: quadFaces_def Let_def)
qed

lemma faces_bound:
  "\<forall>i \<in> set (fold (\<lambda>y. fold (quadFaces gw y) [0 ..< gw - 1]) [0 ..< gh - 1] []).
     i < gw * gh"
proof (rule fold_invariant, rule fold_invariant)
  show "\<forall>i \<in> set []. i < gw * gh" by simp
next
  fix x y :: nat and fs :: "nat list"
  assume "x \<in> set [0 ..< gw - 1]" "y \<in> set [0 ..< gh - 1]" "\<forall>i \<in> set fs. i < gw * gh"
  then show "\<forall>i \<in> set (quadFaces gw y x fs). i < gw * gh"
    by (intro quadFaces_bound) simp_all
qed

lemma geometry_lengths:
  fixes w h :: nat and q :: Quality
  defines "gw \<equiv> nat \<lceil>real w / real (qualityStep q)\<rceil>"
      and "gh \<equiv> nat \<lceil>real h / real (qualityStep q)\<rceil>"
  shows "length (vertices (PreciseDepthMapModel_geometry img mh w h ow oh q)) = 3 * gw * gh"
    and "length (faces (PreciseDepthMapModel_geometry img mh w h ow oh q))
           = 6 * (gw - 1) * (gh - 1)"
    and "\<forall>i \<in> set (faces (PreciseDepthMapModel_geometry img mh w h ow oh q)). i < gw * gh"
proof -
  let ?s = "qualityStep q"
  let ?vc = "fold (\<lambda>y. fold (gridVertex img mh w h ow oh ?s gw gh y) [0 ..< gw]) [0 ..< gh]
                  ([], [])"
  let ?fs = "fold (\<lambda>y. fold (quadFaces gw y) [0 ..< gw - 1]) [0 ..< gh - 1] []"
  have g: "PreciseDepthMapModel_geometry img mh w h ow oh q
             = \<lparr>vertices = fst ?vc, colors = snd ?vc, faces = ?fs\<rparr>"
    by (simp add: PreciseDepthMapModel_geometry_def Let_def gw_def gh_def split: prod.split)
  have "length (fst ?vc) = length (fst ([]::real list, []::real list))
                             + 3 * length [0 ..< gw] * length [0 ..< gh]"
    by (rule nested_fold_grows) (rule gridVertex_grows)
  then show "length (vertices (PreciseDepthMapModel_geometry img mh w h ow oh q)) = 3 * gw * gh"
    unfolding g by simp
  have "length ?fs = length ([]::nat list) + 6 * length [0 ..< gw - 1] * length [0 ..< gh - 1]"
    by (rule nested_fold_grows) (rule quadFaces_grows)
  then show "length (faces (PreciseDepthMapModel_geometry img mh w h ow oh q))
           = 6 * (gw - 1) * (gh - 1)"
    unfolding g by simp
  show "\<forall>i \<in> set (faces (PreciseDepthMapModel_geometry img mh w h ow oh q)). i < gw * gh"
    unfolding g using faces_bound[of gw gh] by simp
qed

text \<open>
  C7. For a depth raster of width \<open>w > 0\<close> and height \<open>h > 0\<close> and each quality tier
  (sampling step 8, 4, 2 or 1), with \<open>gridWidth = ceil (w / step)\<close> and
  \<open>gridHeight = ceil (h / step)\<close>: the mesh has exactly \<open>gridWidth * gridHeight\<close>
  vertices and exactly \<open>2 * (gridWidth - 1) * (gridHeight - 1)\<close> triangles, and
  every triangle index is below the vertex count.
\<close>

theorem C7_mesh_topology:
  fixes w h :: nat
  assumes "0 < w" "0 < h"
  shows "let g = PreciseDepthMapModel_geometry img mh w h ow oh q;
             gridWidth = \<lceil>real w / real (qualityStep q)\<rceil>;
             gridHeight = \<lceil>real h / real (qualityStep q)\<rceil>
         in qualityStep q \<in> {1, 2, 4, 8}
          \<and> length (vertices g) = 3 * vertexCount g
          \<and> int (vertexCount g) = gridWidth * gridHeight
          \<and> length (faces g) = 3 * triangleCount g
          \<and> int (triangleCount g) = 2 * (gridWidth - 1) * (gridHeight - 1)
          \<and> (\<forall>i \<in> set (faces g). i < vertexCount g)"
proof -
  define g where "g = PreciseDepthMapModel_geometry img mh w h ow oh q"
  define gridWidth where "gridWidth = \<lceil>real w / real (qualityStep q)\<rceil>"
  define gridHeight where "gridHeight = \<lceil>real h / real (qualityStep q)\<rceil>"
  let ?s = "qualityStep q"
  have s: "?s \<in> {1, 2, 4, 8}" by (cases q) (simp_all add: qualityStep_def)
  then have s0: "0 < real ?s" by auto
  have "0 < real w / real ?s" "0 < real h / real ?s" using assms(1,2) s0 by simp_all
  then have pos: "1 \<le> gridWidth" "1 \<le> gridHeight"
    unfolding gridWidth_def gridHeight_def by (simp_all add: le_ceiling_iff)
  define gw gh where "gw = nat gridWidth" and "gh = nat gridHeight"
  have gi: "int gw = gridWidth" "int gh = gridHeight" using pos by (simp_all add: gw_def gh_def)
  have gpos: "1 \<le> gw" "1 \<le> gh" using pos by (simp_all add: gw_def gh_def)
  have v: "length (vertices g) = 3 * gw * gh"
    and f: "length (faces g) = 6 * (gw - 1) * (gh - 1)"
    and b: "\<forall>i \<in> set (faces g). i < gw * gh"
    unfolding g_def gw_def gh_def gridWidth_def gridHeight_def by (rule geometry_lengths)+
  have vc: "vertexCount g = gw * gh" using v by (simp add: vertexCount_def)
  have "length (faces g) = 3 * (2 * (gw - 1) * (gh - 1))" using f by simp
  then have tc: "triangleCount g = 2 * (gw - 1) * (gh - 1)"
    unfolding triangleCount_def by simp
  have "int (triangleCount g) = 2 * (int gw - 1) * (int gh - 1)"
    unfolding tc using gpos by (simp add: of_nat_diff)
  then show ?thesis
    using s v f b vc tc gi
    unfolding Let_def g_def[symmetric] gridWidth_def[symmetric] gridHeight_def[symmetric]
    by simp
qed

theorem C7_mesh_topology_witness:
  "vertexCount (PreciseDepthMapModel_geometry
      \<lparr>width = 3, height = 3, data = replicate 36 255\<rparr> 2 3 3 None None high) = 4
   \<and> triangleCount (PreciseDepthMapModel_geometry
      \<lparr>width = 3, height = 3, data = replicate 36 255\<rparr> 2 3 3 None None high) = 2"
proof -
  have c: "\<lceil>(3::real) / 2\<rceil> = 2" by (simp add: ceiling_eq_iff)
  show ?thesis
    using C7_mesh_topology[of 3 3 "\<lparr>width = 3, height = 3, data = replicate 36 255\<rparr>" 2
                              None None high]
    by (simp add: qualityStep_def c Let_def)
qed

section \<open>Edge smoothing\<close>

lemma smoothPixel_length: "length (smoothPixel img s t y x rd) = length rd"
  by (simp add: smoothPixel_def Let_def)

lemma smoothPixel_frame:
  assumes "j \<notin> {(y * width img + x) * 4 ..< (y * width img + x) * 4 + 4}"
  shows "smoothPixel img s t y x rd ! j = rd ! j"
proof -
  let ?i = "(y * width img + x) * 4"
  have "j \<noteq> ?i" "j \<noteq> ?i + 1" "j \<noteq> ?i + 2" "j \<noteq> ?i + 3" using assms by auto
  then show ?thesis by (simp add: smoothPixel_def Let_def)
qed

text \<open>The byte that a pass stores in the R, G and B channels of a near-edge pixel.\<close>

lemma smoothPixel_nth:
  assumes "j \<in> {(y * width img + x) * 4 ..< (y * width img + x) * 4 + 4}" "j < length rd"
  shows "smoothPixel img s t y x rd ! j =
     (if isEdgePixel img (int x) (int y) then
        (if j = (y * width img + x) * 4 + 3 then t ! ((y * width img + x) * 4 + 3)
         else storeByte \<lfloor>real (t ! ((y * width img + x) * 4)) * (1 - sqrt s)
                          + getSmoothValue img s (int x) (int y) * sqrt s + 1 / 2\<rfloor>)
      else rd ! j)"
proof -
  let ?i = "(y * width img + x) * 4"
  have "j = ?i \<or> j = ?i + 1 \<or> j = ?i + 2 \<or> j = ?i + 3" using assms(1) by auto
  then show ?thesis using assms(2)
    by (auto simp: smoothPixel_def Let_def nth_list_update)
qed

lemma smoothIteration_length: "length (smoothIteration img s rd) = length rd"
  unfolding smoothIteration_def
  by (intro fold_length) (simp add: smoothPixel_length)

lemma smoothIteration_nth:
  assumes len: "length rd = width img * height img * 4"
      and xy: "x < width img" "y < height img" and c: "c < 4"
  shows "smoothIteration img s rd ! ((y * width img + x) * 4 + c) =
     (if isEdgePixel img (int x) (int y) \<and> c \<noteq> 3
      then storeByte \<lfloor>real (rd ! ((y * width img + x) * 4)) * (1 - sqrt s)
                        + getSmoothValue img s (int x) (int y) * sqrt s + 1 / 2\<rfloor>
      else rd ! ((y * width img + x) * 4 + c))"
proof -
  let ?w = "width img" and ?h = "height img"
  let ?ks = "List.product [0 ..< ?h] [0 ..< ?w]"
  let ?f = "\<lambda>(y, x). smoothPixel img s rd y x"
  let ?G = "\<lambda>(y, x) j (old::nat).
     if isEdgePixel img (int x) (int y) then
        (if j = (y * ?w + x) * 4 + 3 then rd ! ((y * ?w + x) * 4 + 3)
         else storeByte \<lfloor>real (rd ! ((y * ?w + x) * 4)) * (1 - sqrt s)
                          + getSmoothValue img s (int x) (int y) * sqrt s + 1 / 2\<rfloor>)
     else old"
  let ?j = "(y * ?w + x) * 4 + c"
  have "y * ?w + x < y * ?w + ?w" using xy by simp
  also have "\<dots> = (y + 1) * ?w" by simp
  also have "\<dots> \<le> ?h * ?w" using xy by (intro mult_le_mono1) simp
  finally have "y * ?w + x < ?w * ?h" by (simp add: mult.commute)
  then have j: "?j < length rd" using c len by simp
  have "fold ?f ?ks rd ! ?j = ?G (y, x) ?j (rd ! ?j)"
  proof (rule fold_block[where B = "pixelBlock ?w"])
    show "distinct ?ks" by (simp add: distinct_product)
    show "(y, x) \<in> set ?ks" using xy by simp
    show "?j \<in> pixelBlock ?w (y, x)" using c by (simp add: pixelBlock_def)
    show "?j < length rd" by (rule j)
  next
    fix k and rd' :: "nat list" assume "k \<in> set ?ks"
    show "length (?f k rd') = length rd'"
      by (cases k) (simp add: smoothPixel_length)
  next
    fix k and rd' :: "nat list" and j assume a: "k \<in> set ?ks" "j \<notin> pixelBlock ?w k"
    obtain y' x' where k: "k = (y', x')" by (cases k)
    show "?f k rd' ! j = rd' ! j"
      using a(2) unfolding k by (simp add: smoothPixel_frame pixelBlock_def)
  next
    fix k and rd' :: "nat list" and j
    assume a: "k \<in> set ?ks" "j \<in> pixelBlock ?w k" "j < length rd'"
    obtain y' x' where k: "k = (y', x')" by (cases k)
    show "?f k rd' ! j = ?G k j (rd' ! j)"
      using a(2,3) unfolding k by (simp add: smoothPixel_nth pixelBlock_def)
  next
    fix k k' assume "k \<in> set ?ks" "k' \<in> set ?ks" "k \<noteq> k'"
    then show "pixelBlock ?w k \<inter> pixelBlock ?w k' = {}" by (rule pixelBlock_disjoint)
  qed
  then show ?thesis using c by (simp add: smoothIteration_def fold_nested_product)
qed

lemma smoothIterations_frame:
  assumes len: "length (data img) = width img * height img * 4"
      and xy: "x < width img" "y < height img"
  shows "length (((smoothIteration img s) ^^ n) (data img)) = length (data img)
       \<and> ((smoothIteration img s) ^^ n) (data img) ! ((y * width img + x) * 4 + 3)
           = data img ! ((y * width img + x) * 4 + 3)
       \<and> (\<not> isEdgePixel img (int x) (int y) \<longrightarrow>
            (\<forall>c < 4. ((smoothIteration img s) ^^ n) (data img) ! ((y * width img + x) * 4 + c)
                        = data img ! ((y * width img + x) * 4 + c)))"
proof (induction n)
  case 0
  show ?case by simp
next
  case (Suc n)
  let ?rd = "((smoothIteration img s) ^^ n) (data img)"
  have l: "length ?rd = width img * height img * 4" using Suc len by simp
  have n: "\<And>c. c < 4 \<Longrightarrow> smoothIteration img s ?rd ! ((y * width img + x) * 4 + c) =
     (if isEdgePixel img (int x) (int y) \<and> c \<noteq> 3
      then storeByte \<lfloor>real (?rd ! ((y * width img + x) * 4)) * (1 - sqrt s)
                        + getSmoothValue img s (int x) (int y) * sqrt s + 1 / 2\<rfloor>
      else ?rd ! ((y * width img + x) * 4 + c))"
    using l xy by (rule smoothIteration_nth)
  show ?case using Suc n[of 3] n by (simp add: smoothIteration_length)
qed

lemma getPixelValue_pixelByte:
  assumes "x < width img" "y < height img"
  shows "getPixelValue img (int x) (int y) = pixelByte img x y 0"
proof -
  have "(int y * int (width img) + int x) * 4 = int ((y * width img + x) * 4)" by simp
  then have "nat ((int y * int (width img) + int x) * 4) = (y * width img + x) * 4"
    by (simp only: nat_int)
  then show ?thesis using assms by (simp add: getPixelValue_def pixelByte_def)
qed

text \<open>
  Every pixel that is near-edge in the specification's sense is near-edge for the
  code; the code also counts a neighbour position outside the raster, as depth 0.
\<close>

lemma specNearEdge_isEdgePixel:
  assumes "x < width img" "y < height img" "specNearEdge img x y"
  shows "isEdgePixel img (int x) (int y)"
proof -
  obtain dx dy where o: "(dx, dy) \<in> set neighbourOffsets"
      and b: "inBounds (width img) (height img) (int x + dx) (int y + dy)"
      and d: "\<bar>int (pixelByte img x y 0)
           - int (pixelByte img (nat (int x + dx)) (nat (int y + dy)) 0)\<bar> > 8"
    using assms(3) by (auto simp: specNearEdge_def list_ex_iff)
  have nb: "nat (int x + dx) < width img" "nat (int y + dy) < height img"
    using inBounds_index(3,4)[OF b] by simp_all
  have "getPixelValue img (int x + dx) (int y + dy)
          = pixelByte img (nat (int x + dx)) (nat (int y + dy)) 0"
    using getPixelValue_pixelByte[OF nb] b by (simp add: inBounds_def)
  then have "\<bar>int (getPixelValue img (int x) (int y))
           - int (getPixelValue img (int x + dx) (int y + dy))\<bar> > 8"
    using d getPixelValue_pixelByte[OF assms(1,2)] by simp
  then show ?thesis
    using o by (auto simp: isEdgePixel_def Let_def neighbourOffsets_def)
qed

text \<open>
  C8 (as amended). For every raster and every smoothing strength, the smoother changes
  only pixels that the code's test \<open>isEdgePixel\<close> accepts: those with some neighbour
  position among the eight around it whose depth, taken as 0 outside the raster,
  differs from the pixel's own by more than 8 (this includes every pixel with such a
  neighbour inside the raster). Every other pixel keeps its four bytes, and every pixel
  keeps its alpha byte.
\<close>

theorem C8_smoothing_frame:
  assumes "wellFormed img" "x < width img" "y < height img"
  shows "width (intelligentEdgeSmoothing img s) = width img
       \<and> height (intelligentEdgeSmoothing img s) = height img
       \<and> pixelByte (intelligentEdgeSmoothing img s) x y 3 = pixelByte img x y 3
       \<and> (\<not> isEdgePixel img (int x) (int y) \<longrightarrow>
            (\<forall>c < 4. pixelByte (intelligentEdgeSmoothing img s) x y c = pixelByte img x y c))
       \<and> (specNearEdge img x y \<longrightarrow> isEdgePixel img (int x) (int y))"
proof -
  have len: "length (data img) = width img * height img * 4"
    using assms(1) by (simp add: wellFormed_def)
  show ?thesis
    using smoothIterations_frame[OF len assms(2,3), where s = s and n = "nat \<lceil>s * 4\<rceil>"]
          specNearEdge_isEdgePixel[OF assms(2,3)]
    by (simp add: intelligentEdgeSmoothing_def Let_def pixelByte_def)
qed

theorem C8_smoothing_frame_witness:
  "pixelByte (intelligentEdgeSmoothing \<lparr>width = 1, height = 1, data = [5, 5, 5, 255]\<rparr> (1 / 4))
      0 0 0 = 5
   \<and> pixelByte (intelligentEdgeSmoothing \<lparr>width = 1, height = 1, data = [5, 5, 5, 255]\<rparr> (1 / 4))
      0 0 3 = 255
   \<and> isEdgePixel \<lparr>width = 2, height = 1, data = [0, 0, 0, 255, 100, 100, 100, 255]\<rparr> 0 0"
proof -
  let ?a = "\<lparr>width = 1, height = 1, data = [5, 5, 5, 255]\<rparr>"
  let ?b = "\<lparr>width = 2, height = 1, data = [0, 0, 0, 255, 100, 100, 100, 255]\<rparr>"
  have a: "\<not> isEdgePixel ?a 0 0" by (simp add: isEdgePixel_def getPixelValue_def)
  have b: "specNearEdge ?b 0 0"
    by (simp add: specNearEdge_def neighbourOffsets_def inBounds_def pixelByte_def)
  show ?thesis
    using C8_smoothing_frame[of ?a 0 0 "1 / 4"] C8_smoothing_frame[of ?b 0 0 "1 / 4"] a b
    by (simp add: wellFormed_def pixelByte_def)
qed

text \<open>
  Counterexample to C8 as stated: in a raster of one pixel with depth 40 the pixel has
  no 8-neighbour at all, so none differs by more than 8; yet one pass at strength 1/4
  changes its depth to 25 (the eight positions outside the raster are read as depth 0).
\<close>

theorem C8_pixel_without_neighbours_modified:
  "\<not> specNearEdge \<lparr>width = 1, height = 1, data = [40, 40, 40, 255]\<rparr> 0 0
   \<and> data (intelligentEdgeSmoothing \<lparr>width = 1, height = 1, data = [40, 40, 40, 255]\<rparr> (1 / 4))
       = [25, 25, 25, 255]"
proof -
  let ?img = "\<lparr>width = Suc 0, height = Suc 0, data = [40, 40, 40, 255]\<rparr>"
  have n: "\<not> specNearEdge ?img 0 0"
    by (simp add: specNearEdge_def neighbourOffsets_def inBounds_def)
  have e: "isEdgePixel ?img 0 0" by (simp add: isEdgePixel_def getPixelValue_def)
  have u: "[- 1 .. 1 :: int] = [- 1, 0, 1]" by (simp add: upto.simps)
  have g: "getSmoothValue ?img (1 / 4) 0 0 = 10"
    by (simp add: getSmoothValue_def smoothingKernel_def getPixelValue_def Let_def u)
  have r: "sqrt (1 / 4) = 1 / 2" by (simp add: real_sqrt_divide)
  have p: "smoothPixel ?img (1 / 4) [40, 40, 40, 255] 0 0 [40, 40, 40, 255] = [25, 25, 25, 255]"
    by (simp add: smoothPixel_def Let_def storeByte_def e g r)
  have i: "smoothIteration ?img (1 / 4) [40, 40, 40, 255] = [25, 25, 25, 255]"
    using p by (simp add: smoothIteration_def)
  have c: "nat \<lceil>(1 / 4 :: real) * 4\<rceil> = 1" by simp
  show ?thesis using n i by (simp add: intelligentEdgeSmoothing_def Let_def c)
qed

section \<open>Lattice paths\<close>

lemma offsets_iff:
  "(dx, dy) \<in> set neighbourOffsets \<longleftrightarrow> (dx, dy) \<noteq> (0, 0) \<and> \<bar>dx\<bar> \<le> 1 \<and> \<bar>dy\<bar> \<le> 1"
proof
  assume "(dx, dy) \<in> set neighbourOffsets"
  then show "(dx, dy) \<noteq> (0, 0) \<and> \<bar>dx\<bar> \<le> 1 \<and> \<bar>dy\<bar> \<le> 1"
    by (auto simp: neighbourOffsets_def)
next
  assume a: "(dx, dy) \<noteq> (0, 0) \<and> \<bar>dx\<bar> \<le> 1 \<and> \<bar>dy\<bar> \<le> 1"
  then have "dx \<in> {-1, 0, 1}" "dy \<in> {-1, 0, 1}" by auto
  then show "(dx, dy) \<in> set neighbourOffsets"
    using a by (auto simp: neighbourOffsets_def)
qed

lemma adjacent8_offsets:
  "adjacent8 p q \<longleftrightarrow> (fst q - fst p, snd q - snd p) \<in> set neighbourOffsets"
  unfolding offsets_iff adjacent8_def by (cases p, cases q) auto

lemma adjacent8_sym: "adjacent8 p q \<Longrightarrow> adjacent8 q p"
  by (auto simp: adjacent8_def)

lemma stepCost_sym: "stepCost p q = stepCost q p"
  by (auto simp: stepCost_def)

lemma stepCost_pos: "0 < stepCost p q"
  by (simp add: stepCost_def)

lemma offset_cost:
  assumes "(dx, dy) \<in> set neighbourOffsets"
  shows "sqrt (real_of_int (dx * dx + dy * dy)) = stepCost (x, y) (x + dx, y + dy)"
  using assms by (auto simp: neighbourOffsets_def stepCost_def)

lemma pathLength_nonneg: "0 \<le> pathLength ps"
proof (induction ps rule: pathLength.induct)
  case (1 p q ps)
  then show ?case using stepCost_pos[of p q] by simp
qed simp_all

lemma lattice_add_cost: "s \<in> lattice \<Longrightarrow> stepCost p q + s \<in> lattice"
proof -
  assume "s \<in> lattice"
  then obtain a b :: nat where s: "s = real a + real b * sqrt 2" by (auto simp: lattice_def)
  have "stepCost p q + s = real (a + 1) + real b * sqrt 2
      \<or> stepCost p q + s = real a + real (b + 1) * sqrt 2"
    using s by (simp add: stepCost_def algebra_simps)
  then show ?thesis unfolding lattice_def by blast
qed

lemma pathLength_lattice: "pathLength ps \<in> lattice"
proof (induction ps rule: pathLength.induct)
  case (1 p q ps)
  then show ?case by (simp add: lattice_add_cost)
qed (simp_all add: zero_in_lattice)

lemma lattice_nonneg: "s \<in> lattice \<Longrightarrow> 0 \<le> s"
  by (auto simp: lattice_def)

lemma pixelIndex_inj:
  assumes "inBounds w h (fst p) (snd p)" "inBounds w h (fst q) (snd q)"
          "pixelIndex w p = pixelIndex w q"
  shows "p = q"
proof -
  have e: "pixelIndex w p = nat (snd p) * w + nat (fst p)"
          "pixelIndex w q = nat (snd q) * w + nat (fst q)"
    unfolding pixelIndex_def using inBounds_index(2)[OF assms(1)] inBounds_index(2)[OF assms(2)]
    by simp_all
  have "nat (snd p) = nat (snd q) \<and> nat (fst p) = nat (fst q)"
    using inBounds_index(3)[OF assms(1)] inBounds_index(3)[OF assms(2)] assms(3)
    unfolding e by (rule pixel_index_inj)
  then show ?thesis using assms(1,2) by (auto simp: inBounds_def prod_eq_iff)
qed

lemma pixelIndex_less: "inBounds w h (fst p) (snd p) \<Longrightarrow> pixelIndex w p < w * h"
  unfolding pixelIndex_def by (rule inBounds_index(1))

lemma pixelIndex_nat: "pixelIndex w (int x, int y) = y * w + x"
proof -
  have "int y * int w + int x = int (y * w + x)" by simp
  then show ?thesis unfolding pixelIndex_def by (simp only: nat_int fst_conv snd_conv)
qed

text \<open>The edge test of the code is the edge pixel of the specification.\<close>

lemma isEdge_edgePixel:
  assumes "inside contour w h (int x, int y)"
  shows "isEdge contour w h x y \<longleftrightarrow> edgePixel contour w h (int x, int y)"
proof -
  have b: "x < w" "y < h" using assms by (simp_all add: inside_def inBounds_def)
  have border: "(\<exists>(dx, dy) \<in> set neighbourOffsets. \<not> inBounds w h (int x + dx) (int y + dy))
     \<longleftrightarrow> (int x = 0 \<or> int y = 0 \<or> int x = int w - 1 \<or> int y = int h - 1)"
  proof
    assume "\<exists>(dx, dy) \<in> set neighbourOffsets. \<not> inBounds w h (int x + dx) (int y + dy)"
    then obtain dx dy where o: "\<bar>dx\<bar> \<le> 1" "\<bar>dy\<bar> \<le> 1"
        and nb: "\<not> inBounds w h (int x + dx) (int y + dy)"
      unfolding offsets_iff[symmetric] by (auto simp: offsets_iff)
    then show "int x = 0 \<or> int y = 0 \<or> int x = int w - 1 \<or> int y = int h - 1"
      using b unfolding inBounds_def by linarith
  next
    assume a: "int x = 0 \<or> int y = 0 \<or> int x = int w - 1 \<or> int y = int h - 1"
    have m: "(-1, 0) \<in> set neighbourOffsets" "(0, -1) \<in> set neighbourOffsets"
            "(1, 0) \<in> set neighbourOffsets" "(0, 1) \<in> set neighbourOffsets"
      by (simp_all add: neighbourOffsets_def)
    from a consider "int x = 0" | "int y = 0" | "int x = int w - 1" | "int y = int h - 1" by blast
    then show "\<exists>(dx, dy) \<in> set neighbourOffsets. \<not> inBounds w h (int x + dx) (int y + dy)"
    proof cases
      case 1 then show ?thesis using m(1) by (auto simp: inBounds_def intro!: bexI[of _ "(-1, 0)"])
    next
      case 2 then show ?thesis using m(2) by (auto simp: inBounds_def intro!: bexI[of _ "(0, -1)"])
    next
      case 3 then show ?thesis using m(3) by (auto simp: inBounds_def intro!: bexI[of _ "(1, 0)"])
    next
      case 4 then show ?thesis using m(4) by (auto simp: inBounds_def intro!: bexI[of _ "(0, 1)"])
    qed
  qed
  have "isEdge contour w h x y \<longleftrightarrow>
      (\<exists>(dx, dy) \<in> set neighbourOffsets. \<not> inBounds w h (int x + dx) (int y + dy))
    \<or> (\<exists>(dx, dy) \<in> set neighbourOffsets. inBounds w h (int x + dx) (int y + dy)
          \<and> \<not> contour ! nat ((int y + dy) * int w + (int x + dx)))"
    unfolding isEdge_def list_ex_iff Let_def by (auto split: if_splits)
  then show ?thesis
    unfolding border edgePixel_def list_ex_iff pixelIndex_def using assms by auto
qed

text \<open>An inside pixel that is no edge pixel has all its eight neighbours inside.\<close>

lemma interior_neighbours_inside:
  assumes "inside contour w h p" "\<not> edgePixel contour w h p" "adjacent8 p q"
  shows "inside contour w h q"
proof -
  obtain x y where p: "p = (x, y)" by (cases p)
  define dx dy where "dx = fst q - x" and "dy = snd q - y"
  have q: "q = (x + dx, y + dy)" by (simp add: dx_def dy_def)
  have o: "(dx, dy) \<in> set neighbourOffsets"
    using assms(3) unfolding adjacent8_offsets p dx_def dy_def by simp
  have b: "0 \<le> x" "x < int w" "0 \<le> y" "y < int h"
    using assms(1) unfolding p by (simp_all add: inside_def inBounds_def)
  have nb: "x \<noteq> 0" "y \<noteq> 0" "x \<noteq> int w - 1" "y \<noteq> int h - 1"
    using assms(1,2) unfolding p edgePixel_def by auto
  have "\<bar>dx\<bar> \<le> 1" "\<bar>dy\<bar> \<le> 1" using o by (simp_all add: offsets_iff)
  then have ib: "inBounds w h (x + dx) (y + dy)" using b nb unfolding inBounds_def by linarith
  have "\<not> (inBounds w h (x + dx) (y + dy) \<and> \<not> contour ! pixelIndex w (x + dx, y + dy))"
    using assms(1,2) o unfolding p edgePixel_def list_ex_iff by auto
  then show ?thesis using ib unfolding q inside_def by simp
qed

lemma path_extend:
  assumes "pathToEdge contour w h q ps" "adjacent8 p q"
  shows "pathToEdge contour w h p (p # ps)"
    and "pathLength (p # ps) = stepCost p q + pathLength ps"
proof -
  have "ps \<noteq> []" using assms(1) by (auto simp: pathToEdge_def)
  then obtain rs where c: "ps = q # rs"
    using assms(1) by (cases ps) (auto simp: pathToEdge_def)
  show "pathToEdge contour w h p (p # ps)"
    using assms unfolding c pathToEdge_def by simp
  show "pathLength (p # ps) = stepCost p q + pathLength ps" unfolding c by simp
qed

lemma path_single:
  "edgePixel contour w h p \<Longrightarrow> pathToEdge contour w h p [p] \<and> pathLength [p] = 0"
  by (simp add: pathToEdge_def)

text \<open>Every inside pixel has a lattice path to an edge pixel: walk to the left.\<close>

lemma path_exists:
  assumes "inside contour w h (int x, y)"
  shows "\<exists>ps. pathToEdge contour w h (int x, y) ps"
  using assms
proof (induction x)
  case 0
  then have "edgePixel contour w h (0, y)" by (simp add: edgePixel_def)
  then have "pathToEdge contour w h (int 0, y) [(0, y)]" by (simp add: pathToEdge_def)
  then show ?case by blast
next
  case (Suc x)
  show ?case
  proof (cases "edgePixel contour w h (int (Suc x), y)")
    case True
    then have "pathToEdge contour w h (int (Suc x), y) [(int (Suc x), y)]"
      by (simp add: pathToEdge_def)
    then show ?thesis by blast
  next
    case False
    have adj: "adjacent8 (int (Suc x), y) (int x, y)" by (simp add: adjacent8_def)
    have "inside contour w h (int x, y)"
      using Suc.prems False adj by (rule interior_neighbours_inside)
    then obtain ps where ps: "pathToEdge contour w h (int x, y) ps" using Suc.IH by blast
    have "pathToEdge contour w h (int (Suc x), y) ((int (Suc x), y) # ps)"
      using ps adj by (rule path_extend)
    then show ?thesis by blast
  qed
qed

text \<open>A non-empty set of path lengths has a least element.\<close>

lemma shortest_exists:
  assumes "inside contour w h p"
  shows "\<exists>d. shortestToEdge contour w h p d"
proof -
  let ?L = "{d. \<exists>ps. pathToEdge contour w h p ps \<and> pathLength ps = d}"
  obtain x y where p: "p = (x, y)" by (cases p)
  have "0 \<le> x" using assms unfolding p by (simp add: inside_def inBounds_def)
  then have "p = (int (nat x), y)" unfolding p by simp
  then obtain ps0 where ps0: "pathToEdge contour w h p ps0"
    using path_exists[of contour w h "nat x" y] assms by metis
  let ?S = "?L \<inter> {d. d \<le> pathLength ps0}"
  have "?S \<subseteq> candidates (pathLength ps0)"
    using pathLength_lattice by (auto simp: candidates_def)
  then have fin: "finite ?S" using finite_candidates by (rule finite_subset)
  have ne: "?S \<noteq> {}" using ps0 by auto
  define d where "d = Min ?S"
  have dS: "d \<in> ?S" unfolding d_def using fin ne by (rule Min_in)
  have "\<forall>ps. pathToEdge contour w h p ps \<longrightarrow> d \<le> pathLength ps"
  proof (intro allI impI)
    fix ps assume a: "pathToEdge contour w h p ps"
    show "d \<le> pathLength ps"
    proof (cases "pathLength ps \<le> pathLength ps0")
      case True
      then have "pathLength ps \<in> ?S" using a by auto
      then show ?thesis unfolding d_def using fin by (intro Min_le)
    next
      case False
      then show ?thesis using dS by auto
    qed
  qed
  then show ?thesis using dS unfolding shortestToEdge_def by auto
qed

section \<open>The propagation keeps the invariants\<close>

lemma realised_nonneg: "realised contour w h p d \<Longrightarrow> 0 \<le> d"
  using pathLength_nonneg by (auto simp: realised_def)

lemma relax_cases:
  fixes x y :: nat
  defines "n \<equiv> \<lambda>(dx::int, dy::int). (int x + dx, int y + dy)"
  assumes "off \<in> set neighbourOffsets"
  shows "relax contour w h M x y d off (ds, q) =
     (if inside contour w h (n off)
         \<and> d + stepCost (int x, int y) (n off) < ds ! pixelIndex w (n off)
         \<and> d + stepCost (int x, int y) (n off) \<le> M
      then (ds[pixelIndex w (n off) := d + stepCost (int x, int y) (n off)],
            q @ [(nat (fst (n off)), nat (snd (n off)), d + stepCost (int x, int y) (n off))])
      else (ds, q))"
proof -
  obtain dx dy where off: "off = (dx, dy)" by (cases off)
  have c: "sqrt (real_of_int (dx * dx + dy * dy)) = stepCost (int x, int y) (int x + dx, int y + dy)"
    using assms(2) unfolding off by (rule offset_cost)
  have c': "sqrt (real_of_int dx * real_of_int dx + real_of_int dy * real_of_int dy)
              = stepCost (int x, int y) (int x + dx, int y + dy)"
    using c by simp
  show ?thesis
    unfolding off n_def
    by (simp add: relax_def Let_def inside_def pixelIndex_def c')
qed

lemma relax_keeps:
  assumes ok: "stateOK contour w h M ds q"
      and src: "realised contour w h (int x, int y) d"
      and off: "off \<in> set neighbourOffsets"
      and r: "relax contour w h M x y d off (ds, q) = (ds', q')"
  shows "stateOK contour w h M ds' q'"
    and "\<forall>j. ds' ! j \<le> ds ! j"
    and "\<exists>ext. q' = q @ ext"
    and "relaxedFrom contour w h M ds' (x, y, d) {off}"
proof -
  obtain dx dy where o: "off = (dx, dy)" by (cases off)
  let ?p = "(int x, int y)"
  let ?n = "(int x + dx, int y + dy)"
  let ?new = "d + stepCost ?p ?n"
  have len: "length ds = w * h" and v: "valsOK contour w h M ds"
    and s: "soundDs contour w h M ds" and qd: "queued contour w h M ds q"
    and sq: "soundQ contour w h q"
    using ok by (simp_all add: stateOK_def)
  have vout: "\<And>p. inBounds w h (fst p) (snd p) \<Longrightarrow> \<not> contour ! pixelIndex w p
                  \<Longrightarrow> ds ! pixelIndex w p = - 1"
    and vle: "\<And>p. inside contour w h p \<Longrightarrow> ds ! pixelIndex w p \<le> M"
    and vedge: "\<And>p. inside contour w h p \<Longrightarrow> edgePixel contour w h p
                  \<Longrightarrow> ds ! pixelIndex w p = 0"
    using v unfolding valsOK_def by blast+
  have sD: "\<And>p. inside contour w h p \<Longrightarrow>
              ds ! pixelIndex w p = M \<or> realised contour w h p (ds ! pixelIndex w p)"
    using s unfolding soundDs_def by blast
  have qD: "\<And>p. inside contour w h p \<Longrightarrow>
              ds ! pixelIndex w p = M \<or> (nat (fst p), nat (snd p), ds ! pixelIndex w p) \<in> set q"
    using qd unfolding queued_def by blast
  have insB: "\<And>p. inside contour w h p \<Longrightarrow> inBounds w h (fst p) (snd p)"
    by (simp add: inside_def)
  have adj: "adjacent8 ?n ?p" using off unfolding o adjacent8_offsets offsets_iff by auto
  have d0: "0 \<le> d" using src by (rule realised_nonneg)
  have rc: "relax contour w h M x y d off (ds, q) =
     (if inside contour w h ?n \<and> ?new < ds ! pixelIndex w ?n \<and> ?new \<le> M
      then (ds[pixelIndex w ?n := ?new], q @ [(nat (fst ?n), nat (snd ?n), ?new)])
      else (ds, q))"
    using relax_cases[OF off, of contour w h M x y d ds q] unfolding o by simp
  have all: "stateOK contour w h M ds' q' \<and> (\<forall>j. ds' ! j \<le> ds ! j) \<and> (\<exists>ext. q' = q @ ext)
       \<and> relaxedFrom contour w h M ds' (x, y, d) {off}"
  proof (cases "inside contour w h ?n \<and> ?new < ds ! pixelIndex w ?n \<and> ?new \<le> M")
    case False
    then have "relax contour w h M x y d off (ds, q) = (ds, q)"
      unfolding rc by (rule if_not_P)
    then have e: "ds' = ds" "q' = q" using r by simp_all
    have "relaxedFrom contour w h M ds (x, y, d) {off}"
      using False unfolding relaxedFrom_def o by (auto simp: Let_def)
    then show "stateOK contour w h M ds' q' \<and> (\<forall>j. ds' ! j \<le> ds ! j) \<and> (\<exists>ext. q' = q @ ext)
       \<and> relaxedFrom contour w h M ds' (x, y, d) {off}"
      unfolding e using ok by simp
  next
    case True
    then have ins: "inside contour w h ?n" and lt: "?new < ds ! pixelIndex w ?n"
      and le: "?new \<le> M" by simp_all
    have "relax contour w h M x y d off (ds, q) =
            (ds[pixelIndex w ?n := ?new], q @ [(nat (fst ?n), nat (snd ?n), ?new)])"
      unfolding rc using True by (rule if_P)
    then have e: "ds' = ds[pixelIndex w ?n := ?new]"
            "q' = q @ [(nat (int x + dx), nat (int y + dy), ?new)]"
      using r by simp_all
    have nb: "inBounds w h (int x + dx) (int y + dy)" and nc: "contour ! pixelIndex w ?n"
      using ins by (simp_all add: inside_def)
    have nl: "pixelIndex w ?n < length ds" using pixelIndex_less[of w h ?n] nb len by simp
    have other: "\<And>p. inBounds w h (fst p) (snd p) \<Longrightarrow> p \<noteq> ?n \<Longrightarrow>
                   ds' ! pixelIndex w p = ds ! pixelIndex w p"
    proof -
      fix p :: "int \<times> int" assume "inBounds w h (fst p) (snd p)" "p \<noteq> ?n"
      then have "pixelIndex w p \<noteq> pixelIndex w ?n"
        using pixelIndex_inj[of w h p ?n] nb by auto
      then show "ds' ! pixelIndex w p = ds ! pixelIndex w p" unfolding e by simp
    qed
    have self: "ds' ! pixelIndex w ?n = ?new" unfolding e using nl by simp
    have notedge: "\<not> edgePixel contour w h ?n"
    proof
      assume "edgePixel contour w h ?n"
      then have "ds ! pixelIndex w ?n = 0" using vedge ins by blast
      then show False using lt d0 stepCost_pos[of ?p ?n] by linarith
    qed
    have rn: "realised contour w h ?n ?new"
    proof -
      obtain ps where ps: "pathToEdge contour w h ?p ps" "pathLength ps = d"
        using src unfolding realised_def by blast
      have "pathToEdge contour w h ?n (?n # ps)"
           "pathLength (?n # ps) = stepCost ?n ?p + pathLength ps"
        using ps(1) adj by (rule path_extend)+
      then show ?thesis unfolding realised_def using ps(2) stepCost_sym[of ?n ?p] by auto
    qed
    have v': "valsOK contour w h M ds'"
      unfolding valsOK_def
    proof (intro conjI allI impI)
      fix p assume a: "inBounds w h (fst p) (snd p) \<and> \<not> contour ! pixelIndex w p"
      then have "p \<noteq> ?n" using nc by auto
      then show "ds' ! pixelIndex w p = - 1"
        using other[of p] a vout[of p] by simp
    next
      fix p assume a: "inside contour w h p"
      show "ds' ! pixelIndex w p \<le> M"
      proof (cases "p = ?n")
        case True then show ?thesis using self le by simp
      next
        case False
        then show ?thesis using other[of p] insB[OF a] vle[OF a] by simp
      qed
    next
      fix p assume a: "inside contour w h p" "edgePixel contour w h p"
      then have "p \<noteq> ?n" using notedge by auto
      then show "ds' ! pixelIndex w p = 0"
        using other[of p] insB[OF a(1)] vedge[OF a] by simp
    qed
    have s': "soundDs contour w h M ds'"
      unfolding soundDs_def
    proof (intro allI impI)
      fix p assume a: "inside contour w h p"
      show "ds' ! pixelIndex w p = M \<or> realised contour w h p (ds' ! pixelIndex w p)"
      proof (cases "p = ?n")
        case True then show ?thesis using self rn by simp
      next
        case False
        then show ?thesis using other[of p] insB[OF a] sD[OF a] by simp
      qed
    qed
    have qd': "queued contour w h M ds' q'"
      unfolding queued_def
    proof (intro allI impI)
      fix p assume a: "inside contour w h p"
      show "ds' ! pixelIndex w p = M \<or> (nat (fst p), nat (snd p), ds' ! pixelIndex w p) \<in> set q'"
      proof (cases "p = ?n")
        case True then show ?thesis using self unfolding e(2) by simp
      next
        case False
        then have "ds' ! pixelIndex w p = ds ! pixelIndex w p"
          using other[of p] insB[OF a] by simp
        then show ?thesis using qD[OF a] unfolding e(2) by auto
      qed
    qed
    have sq': "soundQ contour w h q'"
    proof -
      have "int (nat (int x + dx)) = int x + dx" "int (nat (int y + dy)) = int y + dy"
        using nb by (simp_all add: inBounds_def)
      then show ?thesis using sq rn unfolding soundQ_def e(2) by auto
    qed
    have mono: "\<forall>j. ds' ! j \<le> ds ! j"
    proof
      fix j show "ds' ! j \<le> ds ! j"
        using lt nl unfolding e by (cases "j = pixelIndex w ?n") simp_all
    qed
    have post: "relaxedFrom contour w h M ds' (x, y, d) {off}"
      unfolding relaxedFrom_def o using self by (simp add: Let_def)
    show "stateOK contour w h M ds' q' \<and> (\<forall>j. ds' ! j \<le> ds ! j) \<and> (\<exists>ext. q' = q @ ext)
       \<and> relaxedFrom contour w h M ds' (x, y, d) {off}"
      using v' s' qd' sq' mono post len unfolding stateOK_def e by simp
  qed
  show "stateOK contour w h M ds' q'" "\<forall>j. ds' ! j \<le> ds ! j" "\<exists>ext. q' = q @ ext"
       "relaxedFrom contour w h M ds' (x, y, d) {off}"
    using all by blast+
qed
lemma relaxedFrom_mono:
  assumes "relaxedFrom contour w h M ds e S" "\<forall>j. ds' ! j \<le> ds ! j"
  shows "relaxedFrom contour w h M ds' e S"
  unfolding relaxedFrom_def Let_def
proof (intro ballI impI)
  fix off
  let ?p = "(int (fst e), int (fst (snd e)))"
  let ?n = "(fst ?p + fst off, snd ?p + snd off)"
  assume a: "off \<in> S" "inside contour w h ?n" "snd (snd e) + stepCost ?p ?n \<le> M"
  then have "ds ! pixelIndex w ?n \<le> snd (snd e) + stepCost ?p ?n"
    using assms(1) unfolding relaxedFrom_def Let_def by blast
  moreover have "ds' ! pixelIndex w ?n \<le> ds ! pixelIndex w ?n" using assms(2) by blast
  ultimately show "ds' ! pixelIndex w ?n \<le> snd (snd e) + stepCost ?p ?n" by linarith
qed

lemma relaxedFrom_insert:
  "relaxedFrom contour w h M ds e {off} \<Longrightarrow> relaxedFrom contour w h M ds e S
   \<Longrightarrow> relaxedFrom contour w h M ds e (insert off S)"
  by (simp add: relaxedFrom_def)

lemma relax_fold_keeps:
  assumes "set offs \<subseteq> set neighbourOffsets"
      and "stateOK contour w h M ds q"
      and "realised contour w h (int x, int y) d"
      and "fold (relax contour w h M x y d) offs (ds, q) = (ds', q')"
  shows "stateOK contour w h M ds' q' \<and> (\<forall>j. ds' ! j \<le> ds ! j) \<and> (\<exists>ext. q' = q @ ext)
       \<and> relaxedFrom contour w h M ds' (x, y, d) (set offs)"
  using assms
proof (induction offs arbitrary: ds q)
  case Nil
  then show ?case by (simp add: relaxedFrom_def)
next
  case (Cons off offs)
  obtain ds1 q1 where s1: "relax contour w h M x y d off (ds, q) = (ds1, q1)"
    by (cases "relax contour w h M x y d off (ds, q)")
  have off: "off \<in> set neighbourOffsets" using Cons.prems(1) by simp
  note k = relax_keeps[OF Cons.prems(2,3) off s1]
  have f: "fold (relax contour w h M x y d) offs (ds1, q1) = (ds', q')"
    using Cons.prems(4) s1 by simp
  have sub: "set offs \<subseteq> set neighbourOffsets" using Cons.prems(1) by simp
  have ih: "stateOK contour w h M ds' q' \<and> (\<forall>j. ds' ! j \<le> ds1 ! j) \<and> (\<exists>ext. q' = q1 @ ext)
       \<and> relaxedFrom contour w h M ds' (x, y, d) (set offs)"
    using sub k(1) Cons.prems(3) f by (rule Cons.IH)
  have m: "\<forall>j. ds' ! j \<le> ds ! j"
  proof
    fix j
    have "ds' ! j \<le> ds1 ! j" "ds1 ! j \<le> ds ! j" using ih k(2) by blast+
    then show "ds' ! j \<le> ds ! j" by linarith
  qed
  have m1: "\<forall>j. ds' ! j \<le> ds1 ! j" using ih by (rule conjunct1[OF conjunct2])
  have r1: "relaxedFrom contour w h M ds' (x, y, d) {off}"
    using k(4) m1 by (rule relaxedFrom_mono)
  have r2: "relaxedFrom contour w h M ds' (x, y, d) (set offs)" using ih by simp
  have r: "relaxedFrom contour w h M ds' (x, y, d) (set (off # offs))"
    using relaxedFrom_insert[OF r1 r2] by simp
  obtain e1 where e1: "q1 = q @ e1" using k(3) by blast
  obtain e2 where e2: "q' = q1 @ e2" using ih by blast
  have x: "\<exists>ext. q' = q @ ext" unfolding e2 e1 by simp
  have "stateOK contour w h M ds' q'" using ih by simp
  then show ?case using m r x by simp
qed

lemma bfsStep_keeps:
  assumes "dfInv contour w h M st" "snd (snd st) < length (fst (snd st))"
  shows "dfInv contour w h M (bfsStep contour w h M st)"
proof -
  obtain ds q i where st: "st = (ds, q, i)" by (cases st)
  have i: "i < length q" and ok: "stateOK contour w h M ds q"
    and pr: "\<And>k. k < i \<Longrightarrow> snd (snd (q ! k)) < M \<Longrightarrow>
                relaxedFrom contour w h M ds (q ! k) (set neighbourOffsets)"
    using assms unfolding st dfInv_def by simp_all
  obtain x y d where e: "q ! i = (x, y, d)" by (cases "q ! i")
  have "(x, y, d) \<in> set q" using i e by (metis nth_mem)
  then have src: "realised contour w h (int x, int y) d"
    using ok unfolding stateOK_def soundQ_def by fastforce
  show ?thesis
  proof (cases "d \<ge> M")
    case True
    then have s: "bfsStep contour w h M (ds, q, i) = (ds, q, i + 1)"
      by (simp add: bfsStep_def e)
    have "\<And>k. k < i + 1 \<Longrightarrow> snd (snd (q ! k)) < M \<Longrightarrow>
                relaxedFrom contour w h M ds (q ! k) (set neighbourOffsets)"
    proof -
      fix k assume k: "k < i + 1" "snd (snd (q ! k)) < M"
      then have "k \<noteq> i" using True e by auto
      then show "relaxedFrom contour w h M ds (q ! k) (set neighbourOffsets)"
        using k pr by simp
    qed
    then show ?thesis unfolding st s dfInv_def using ok i by simp
  next
    case False
    obtain ds' q' where f: "fold (relax contour w h M x y d) neighbourOffsets (ds, q) = (ds', q')"
      by (cases "fold (relax contour w h M x y d) neighbourOffsets (ds, q)")
    have s: "bfsStep contour w h M (ds, q, i) = (ds', q', i + 1)"
      using False by (simp add: bfsStep_def e f)
    have k: "stateOK contour w h M ds' q' \<and> (\<forall>j. ds' ! j \<le> ds ! j) \<and> (\<exists>ext. q' = q @ ext)
       \<and> relaxedFrom contour w h M ds' (x, y, d) (set neighbourOffsets)"
      using _ ok src f by (rule relax_fold_keeps) simp
    then obtain ext where ext: "q' = q @ ext" by blast
    have mk: "\<forall>j. ds' ! j \<le> ds ! j" using k by simp
    have ok': "stateOK contour w h M ds' q'" using k by simp
    have rl: "relaxedFrom contour w h M ds' (x, y, d) (set neighbourOffsets)" using k by simp
    have same: "\<And>k. k \<le> i \<Longrightarrow> q' ! k = q ! k" using i unfolding ext by (simp add: nth_append)
    have "\<And>k. k < i + 1 \<Longrightarrow> snd (snd (q' ! k)) < M \<Longrightarrow>
                relaxedFrom contour w h M ds' (q' ! k) (set neighbourOffsets)"
    proof -
      fix k assume a: "k < i + 1" "snd (snd (q' ! k)) < M"
      show "relaxedFrom contour w h M ds' (q' ! k) (set neighbourOffsets)"
      proof (cases "k = i")
        case True
        then show ?thesis using rl same[of i] e by simp
      next
        case False
        then have ki: "k < i" using a(1) by simp
        then have "relaxedFrom contour w h M ds (q ! k) (set neighbourOffsets)"
          using pr[of k] a(2) same[of k] by simp
        then have "relaxedFrom contour w h M ds' (q ! k) (set neighbourOffsets)"
          using mk by (rule relaxedFrom_mono)
        then show ?thesis using same[of k] ki by simp
      qed
    qed
    moreover have "i + 1 \<le> length q'" using i unfolding ext by simp
    ultimately show ?thesis unfolding st s dfInv_def using ok' by simp
  qed
qed

section \<open>The seeding pass\<close>

lemma seed_fold:
  "fold (\<lambda>(y, x). seedPixel contour w h M y x) ks (ds, q) =
     (fold (\<lambda>(y, x) ds. if contour ! (y * w + x)
                          then ds[y * w + x := (if isEdge contour w h x y then 0 else M)]
                          else ds) ks ds,
      q @ map (\<lambda>(y, x). (x, y, 0))
            (filter (\<lambda>(y, x). contour ! (y * w + x) \<and> isEdge contour w h x y) ks))"
proof (induction ks arbitrary: ds q)
  case Nil
  show ?case by simp
next
  case (Cons k ks)
  obtain y x where k: "k = (y, x)" by (cases k)
  have step: "seedPixel contour w h M y x (ds, q) =
     (if contour ! (y * w + x)
      then (if isEdge contour w h x y then (ds[y * w + x := 0], q @ [(x, y, 0)])
            else (ds[y * w + x := M], q))
      else (ds, q))"
    by (simp add: seedPixel_def Let_def)
  show ?case
    unfolding k by (simp add: step Cons.IH)
qed

lemma seedPass_alt:
  "seedPass contour w h M =
     (fold (\<lambda>(y, x) ds. if contour ! (y * w + x)
                          then ds[y * w + x := (if isEdge contour w h x y then 0 else M)]
                          else ds) (List.product [0 ..< h] [0 ..< w]) (replicate (w * h) (- 1)),
      map (\<lambda>(y, x). (x, y, 0))
          (filter (\<lambda>(y, x). contour ! (y * w + x) \<and> isEdge contour w h x y)
                  (List.product [0 ..< h] [0 ..< w])))"
  unfolding seedPass_def fold_nested_product seed_fold by simp

lemma seedPass_values:
  assumes "x < w" "y < h"
  shows "fst (seedPass contour w h M) ! (y * w + x) =
           (if contour ! (y * w + x) then (if isEdge contour w h x y then 0 else M) else - 1)"
proof -
  let ?ks = "List.product [0 ..< h] [0 ..< w]"
  let ?g = "\<lambda>(y, x) ds. if contour ! (y * w + x)
                          then ds[y * w + x := (if isEdge contour w h x y then 0 else M)]
                          else ds"
  let ?G = "\<lambda>(y, x) (j::nat) (old::real).
              if contour ! (y * w + x) then (if isEdge contour w h x y then 0 else M) else old"
  let ?B = "\<lambda>(y, x). {y * w + x}"
  let ?rd = "replicate (w * h) (- 1 :: real)"
  have "y * w + x < y * w + w" using assms by simp
  also have "\<dots> = (y + 1) * w" by simp
  also have "\<dots> \<le> h * w" using assms by (intro mult_le_mono1) simp
  finally have j: "y * w + x < w * h" by (simp add: mult.commute)
  have "fold ?g ?ks ?rd ! (y * w + x) = ?G (y, x) (y * w + x) (?rd ! (y * w + x))"
  proof (rule fold_block[where B = ?B])
    show "distinct ?ks" by (simp add: distinct_product)
    show "(y, x) \<in> set ?ks" using assms by simp
    show "y * w + x \<in> ?B (y, x)" by simp
    show "y * w + x < length ?rd" using j by simp
  next
    fix k and rd' :: "real list" assume "k \<in> set ?ks"
    show "length (?g k rd') = length rd'" by (cases k) simp
  next
    fix k and rd' :: "real list" and j assume a: "k \<in> set ?ks" "j \<notin> ?B k"
    obtain y' x' where k: "k = (y', x')" by (cases k)
    show "?g k rd' ! j = rd' ! j" using a(2) unfolding k by simp
  next
    fix k and rd' :: "real list" and j
    assume a: "k \<in> set ?ks" "j \<in> ?B k" "j < length rd'"
    obtain y' x' where k: "k = (y', x')" by (cases k)
    show "?g k rd' ! j = ?G k j (rd' ! j)" using a(2,3) unfolding k by simp
  next
    fix k k' assume a: "k \<in> set ?ks" "k' \<in> set ?ks" "k \<noteq> k'"
    obtain y1 x1 y2 x2 where k: "k = (y1, x1)" "k' = (y2, x2)" by (cases k, cases k') auto
    have "x1 < w" "x2 < w" using a(1,2) unfolding k by simp_all
    then have "y1 * w + x1 \<noteq> y2 * w + x2" using pixel_index_inj[of x1 w x2 y1 y2] a(3) k by auto
    then show "?B k \<inter> ?B k' = {}" unfolding k by simp
  qed
  then show ?thesis using j by (simp add: seedPass_alt)
qed

lemma seedPass_queue:
  "set (snd (seedPass contour w h M)) =
     {(x, y, 0) | x y. x < w \<and> y < h \<and> contour ! (y * w + x) \<and> isEdge contour w h x y}"
  unfolding seedPass_alt by auto

lemma inside_nat:
  assumes "inside contour w h p"
  shows "p = (int (nat (fst p)), int (nat (snd p)))" "nat (fst p) < w" "nat (snd p) < h"
        "pixelIndex w p = nat (snd p) * w + nat (fst p)"
        "contour ! (nat (snd p) * w + nat (fst p))"
proof -
  have b: "inBounds w h (fst p) (snd p)" and c: "contour ! pixelIndex w p"
    using assms by (simp_all add: inside_def)
  show "p = (int (nat (fst p)), int (nat (snd p)))" using b by (simp add: inBounds_def)
  show "nat (fst p) < w" "nat (snd p) < h" using inBounds_index(3,4)[OF b] by simp_all
  show e: "pixelIndex w p = nat (snd p) * w + nat (fst p)"
    unfolding pixelIndex_def using inBounds_index(2)[OF b] by simp
  show "contour ! (nat (snd p) * w + nat (fst p))" using c e by simp
qed

lemma seedPass_dfInv:
  assumes "0 \<le> M"
  shows "dfInv contour w h M (fst (seedPass contour w h M), snd (seedPass contour w h M), 0)"
proof -
  let ?ds = "fst (seedPass contour w h M)" and ?q = "snd (seedPass contour w h M)"
  have len: "length ?ds = w * h"
    using seedPass_inv[where contour = contour and w = w and h = h and M = M]
    by (simp add: split_beta)
  have val: "\<And>p. inBounds w h (fst p) (snd p) \<Longrightarrow> ?ds ! pixelIndex w p =
           (if contour ! pixelIndex w p
            then (if isEdge contour w h (nat (fst p)) (nat (snd p)) then 0 else M) else - 1)"
  proof -
    fix p :: "int \<times> int" assume b: "inBounds w h (fst p) (snd p)"
    have e: "pixelIndex w p = nat (snd p) * w + nat (fst p)"
      unfolding pixelIndex_def using inBounds_index(2)[OF b] by simp
    show "?ds ! pixelIndex w p =
           (if contour ! pixelIndex w p
            then (if isEdge contour w h (nat (fst p)) (nat (snd p)) then 0 else M) else - 1)"
      unfolding e using inBounds_index(3,4)[OF b] by (intro seedPass_values)
  qed
  have edge: "\<And>p. inside contour w h p \<Longrightarrow>
      isEdge contour w h (nat (fst p)) (nat (snd p)) \<longleftrightarrow> edgePixel contour w h p"
  proof -
    fix p assume a: "inside contour w h p"
    then have "inside contour w h (int (nat (fst p)), int (nat (snd p)))"
      using inside_nat(1)[OF a] by simp
    then show "isEdge contour w h (nat (fst p)) (nat (snd p)) \<longleftrightarrow> edgePixel contour w h p"
      using isEdge_edgePixel[of contour w h "nat (fst p)" "nat (snd p)"] inside_nat(1)[OF a]
      by simp
  qed
  have insv: "\<And>p. inside contour w h p \<Longrightarrow>
      ?ds ! pixelIndex w p = (if edgePixel contour w h p then 0 else M)"
    using val edge by (simp add: inside_def)
  have v: "valsOK contour w h M ?ds"
    unfolding valsOK_def using val insv assms by auto
  have s: "soundDs contour w h M ?ds"
    unfolding soundDs_def realised_def using insv path_single by (metis (full_types))
  have q: "queued contour w h M ?ds ?q"
    unfolding queued_def
  proof (intro allI impI)
    fix p assume a: "inside contour w h p"
    show "?ds ! pixelIndex w p = M \<or> (nat (fst p), nat (snd p), ?ds ! pixelIndex w p) \<in> set ?q"
    proof (cases "edgePixel contour w h p")
      case True
      then have "isEdge contour w h (nat (fst p)) (nat (snd p))" using edge[OF a] by simp
      then have "(nat (fst p), nat (snd p), 0) \<in> set ?q"
        unfolding seedPass_queue using inside_nat(2,3,5)[OF a] by simp
      then show ?thesis using insv[OF a] True by simp
    next
      case False
      then show ?thesis using insv[OF a] by simp
    qed
  qed
  have sq: "soundQ contour w h ?q"
    unfolding soundQ_def
  proof
    fix e assume "e \<in> set ?q"
    then obtain x y where e: "e = (x, y, 0)" and b: "x < w" "y < h"
        and c: "contour ! (y * w + x)" and ie: "isEdge contour w h x y"
      unfolding seedPass_queue by auto
    have ins: "inside contour w h (int x, int y)"
      using b c by (simp add: inside_def inBounds_def pixelIndex_nat)
    then have "edgePixel contour w h (int x, int y)" using ie isEdge_edgePixel by blast
    then show "realised contour w h (int (fst e), int (fst (snd e))) (snd (snd e))"
      unfolding e realised_def using path_single by fastforce
  qed
  show ?thesis unfolding dfInv_def stateOK_def using len v s q sq by simp
qed

section \<open>The distance field\<close>

lemma valsOK_D:
  assumes "valsOK contour w h M ds"
  shows "inBounds w h (fst p) (snd p) \<Longrightarrow> \<not> contour ! pixelIndex w p
           \<Longrightarrow> ds ! pixelIndex w p = - 1"
    and "inside contour w h p \<Longrightarrow> ds ! pixelIndex w p \<le> M"
    and "inside contour w h p \<Longrightarrow> edgePixel contour w h p \<Longrightarrow> ds ! pixelIndex w p = 0"
  using assms unfolding valsOK_def by blast+

lemma final_feasible:
  assumes inv: "dfInv contour w h M (ds, q, i)" and fin: "\<not> i < length q"
      and p: "inside contour w h p" and n: "inside contour w h n" and adj: "adjacent8 p n"
  shows "ds ! pixelIndex w n \<le> ds ! pixelIndex w p + stepCost p n"
proof -
  have ok: "stateOK contour w h M ds q" and il: "i \<le> length q"
    and pr: "\<And>k. k < i \<Longrightarrow> snd (snd (q ! k)) < M \<Longrightarrow>
                relaxedFrom contour w h M ds (q ! k) (set neighbourOffsets)"
    using inv unfolding dfInv_def by simp_all
  have i: "i = length q" using il fin by simp
  have v: "valsOK contour w h M ds" and qd: "queued contour w h M ds q"
    using ok by (simp_all add: stateOK_def)
  have pM: "ds ! pixelIndex w p \<le> M" and nM: "ds ! pixelIndex w n \<le> M"
    using valsOK_D(2)[OF v] p n by blast+
  have c: "0 < stepCost p n" by (rule stepCost_pos)
  show ?thesis
  proof (cases "ds ! pixelIndex w p = M")
    case True
    then show ?thesis using nM c by linarith
  next
    case False
    let ?e = "(nat (fst p), nat (snd p), ds ! pixelIndex w p)"
    have "?e \<in> set q" using qd p False unfolding queued_def by blast
    then obtain k where k: "k < length q" "q ! k = ?e" unfolding in_set_conv_nth by blast
    have "snd (snd (q ! k)) < M" using k(2) pM False by simp
    then have r: "relaxedFrom contour w h M ds ?e (set neighbourOffsets)"
      using pr[of k] k i by simp
    let ?off = "(fst n - fst p, snd n - snd p)"
    have o: "?off \<in> set neighbourOffsets" using adj unfolding adjacent8_offsets .
    have nn: "0 \<le> fst p" "0 \<le> snd p" using p by (simp_all add: inside_def inBounds_def)
    have "let p' = (int (fst ?e), int (fst (snd ?e)));
              n' = (fst p' + fst ?off, snd p' + snd ?off)
          in inside contour w h n' \<longrightarrow> snd (snd ?e) + stepCost p' n' \<le> M
             \<longrightarrow> ds ! pixelIndex w n' \<le> snd (snd ?e) + stepCost p' n'"
      using r o unfolding relaxedFrom_def by blast
    then have "inside contour w h n \<longrightarrow> ds ! pixelIndex w p + stepCost p n \<le> M
             \<longrightarrow> ds ! pixelIndex w n \<le> ds ! pixelIndex w p + stepCost p n"
      using nn by (simp add: Let_def)
    then show ?thesis using n nM by linarith
  qed
qed

lemma final_upper:
  assumes inv: "dfInv contour w h M (ds, q, i)" and fin: "\<not> i < length q"
  shows "isPath ps \<Longrightarrow> inside contour w h (hd ps) \<Longrightarrow> edgePixel contour w h (last ps)
         \<Longrightarrow> ds ! pixelIndex w (hd ps) \<le> pathLength ps"
proof (induction ps rule: isPath.induct)
  case 1
  then show ?case by simp
next
  case (2 p)
  have "valsOK contour w h M ds" using inv by (simp add: dfInv_def stateOK_def)
  then have "ds ! pixelIndex w p = 0" using 2 valsOK_D(3) by simp
  then show ?case by simp
next
  case (3 p r ps)
  have v: "valsOK contour w h M ds" using inv by (simp add: dfInv_def stateOK_def)
  have p: "inside contour w h p" and adj: "adjacent8 p r" and path: "isPath (r # ps)"
    and last: "edgePixel contour w h (last (r # ps))"
    using 3(2,3,4) by simp_all
  show ?case
  proof (cases "edgePixel contour w h p")
    case True
    then have "ds ! pixelIndex w p = 0" using valsOK_D(3)[OF v p] by simp
    then show ?thesis using pathLength_nonneg[of "p # r # ps"] by simp
  next
    case False
    have r: "inside contour w h r" using p False adj by (rule interior_neighbours_inside)
    have ih: "ds ! pixelIndex w r \<le> pathLength (r # ps)"
      using 3(1)[OF path] r last by simp
    have "ds ! pixelIndex w p \<le> ds ! pixelIndex w r + stepCost r p"
      using inv fin r p adjacent8_sym[OF adj] by (rule final_feasible)
    then show ?thesis using ih stepCost_sym[of r p] by simp
  qed
qed

text \<open>
  C1. For every mask of a \<open>w \<times> h\<close> raster and every \<open>maxDistance > 0\<close>,
  \<^verbatim>\<open>calculateDistanceFieldFast\<close> returns a field of \<open>w * h\<close> numbers that holds
  exactly \<open>-1\<close> at every pixel where the mask is false and, at every pixel where the
  mask is true, the length of the shortest 8-connected lattice path (orthogonal steps
  cost 1, diagonal steps cost \<open>sqrt 2\<close>) from that pixel to an edge pixel, clamped
  to \<open>[0, maxDistance]\<close>; edge pixels get 0.
\<close>

theorem C1_distance_field:
  assumes "length contour = w * h" "0 < M" "x < w" "y < h"
  shows "\<exists>df. calculateDistanceFieldFast contour w h M = Some df \<and> length df = w * h
       \<and> (\<not> contour ! (y * w + x) \<longrightarrow> df ! (y * w + x) = - 1)
       \<and> (contour ! (y * w + x) \<longrightarrow>
            (\<exists>d. shortestToEdge contour w h (int x, int y) d
                  \<and> df ! (y * w + x) = max 0 (min M d))
          \<and> (edgePixel contour w h (int x, int y) \<longrightarrow> df ! (y * w + x) = 0))"
proof -
  let ?p = "(int x, int y)"
  obtain ds0 q0 where s: "seedPass contour w h M = (ds0, q0)"
    by (cases "seedPass contour w h M")
  have i0: "dfInv contour w h M (ds0, q0, 0)"
    using seedPass_dfInv[of M contour w h] assms(2) s by simp
  have b0: "bfsInv w h (ds0, q0, 0)"
    using seedPass_inv[where contour = contour and w = w and h = h and M = M] s
    by (simp add: bfsInv_def)
  have "\<exists>ds q i. bfsLoop contour w h M (ds0, q0, 0) = Some ds \<and> dfInv contour w h M (ds, q, i)
          \<and> bfsInv w h (ds, q, i) \<and> \<not> i < length q"
    using i0 b0 by (rule bfsLoop_rule) (rule bfsStep_keeps)
  then obtain ds q i where r: "bfsLoop contour w h M (ds0, q0, 0) = Some ds"
      and inv: "dfInv contour w h M (ds, q, i)" and bi: "bfsInv w h (ds, q, i)"
      and fin: "\<not> i < length q"
    by blast
  have res: "calculateDistanceFieldFast contour w h M = Some ds"
    by (simp add: calculateDistanceFieldFast_def s r)
  have len: "length ds = w * h" using bi by (simp add: bfsInv_def)
  have ok: "stateOK contour w h M ds q" using inv by (simp add: dfInv_def)
  have v: "valsOK contour w h M ds" and sd: "soundDs contour w h M ds"
    using ok by (simp_all add: stateOK_def)
  have ib: "inBounds w h (fst ?p) (snd ?p)" using assms(3,4) by (simp add: inBounds_def)
  have ix: "pixelIndex w ?p = y * w + x" by (rule pixelIndex_nat)
  have out: "\<not> contour ! (y * w + x) \<longrightarrow> ds ! (y * w + x) = - 1"
    using valsOK_D(1)[OF v ib] ix by simp
  have "contour ! (y * w + x) \<longrightarrow>
            (\<exists>d. shortestToEdge contour w h ?p d \<and> ds ! (y * w + x) = max 0 (min M d))
          \<and> (edgePixel contour w h ?p \<longrightarrow> ds ! (y * w + x) = 0)"
  proof
    assume c: "contour ! (y * w + x)"
    then have ins: "inside contour w h ?p" using ib ix by (simp add: inside_def)
    let ?v = "ds ! (y * w + x)"
    have vM: "?v \<le> M" and ve: "edgePixel contour w h ?p \<longrightarrow> ?v = 0"
      using valsOK_D(2,3)[OF v ins] ix by simp_all
    have up: "\<And>ps. pathToEdge contour w h ?p ps \<Longrightarrow> ?v \<le> pathLength ps"
    proof -
      fix ps assume a: "pathToEdge contour w h ?p ps"
      then have "isPath ps" "inside contour w h (hd ps)" "edgePixel contour w h (last ps)"
        using ins by (simp_all add: pathToEdge_def)
      then have "ds ! pixelIndex w (hd ps) \<le> pathLength ps"
        using final_upper[OF inv fin] by blast
      then show "?v \<le> pathLength ps" using a ix by (simp add: pathToEdge_def)
    qed
    obtain d where d: "shortestToEdge contour w h ?p d" using shortest_exists[OF ins] by blast
    then obtain ps where ps: "pathToEdge contour w h ?p ps" "pathLength ps = d"
      and least: "\<And>ps'. pathToEdge contour w h ?p ps' \<Longrightarrow> d \<le> pathLength ps'"
      unfolding shortestToEdge_def by blast
    have d0: "0 \<le> d" using ps(2) pathLength_nonneg[of ps] by simp
    have vd: "?v \<le> d" using up[OF ps(1)] ps(2) by simp
    have "ds ! pixelIndex w ?p = M \<or> realised contour w h ?p (ds ! pixelIndex w ?p)"
      using sd ins unfolding soundDs_def by blast
    then have "?v = M \<or> realised contour w h ?p ?v" unfolding ix .
    then have "?v = min M d"
    proof
      assume "?v = M"
      then show ?thesis using vd by simp
    next
      assume "realised contour w h ?p ?v"
      then obtain ps' where "pathToEdge contour w h ?p ps'" "pathLength ps' = ?v"
        unfolding realised_def by blast
      then have "d \<le> ?v" using least by metis
      then show ?thesis using vd vM by simp
    qed
    then have "?v = max 0 (min M d)" using d0 assms(2) by simp
    then show "(\<exists>d. shortestToEdge contour w h ?p d \<and> ?v = max 0 (min M d))
          \<and> (edgePixel contour w h ?p \<longrightarrow> ?v = 0)"
      using d ve by blast
  qed
  then show ?thesis using res len out by blast
qed

theorem C1_distance_field_witness:
  "(\<exists>df. calculateDistanceFieldFast (replicate 9 True) 3 3 5 = Some df
         \<and> df ! 0 = 0 \<and> df ! 4 = 1)
   \<and> (\<exists>df. calculateDistanceFieldFast [True, False] 2 1 3 = Some df \<and> df ! 1 = - 1)"
proof
  let ?c = "replicate 9 True"
  have c: "\<And>k. k < 9 \<Longrightarrow> ?c ! k" by simp
  have corner: "edgePixel ?c 3 3 (0, 0)"
    by (simp add: edgePixel_def inside_def inBounds_def pixelIndex_def)
  have left: "edgePixel ?c 3 3 (0, 1)"
    by (simp add: edgePixel_def inside_def inBounds_def pixelIndex_def)
  have centre: "\<not> edgePixel ?c 3 3 (1, 1)"
    by (simp add: edgePixel_def neighbourOffsets_def inBounds_def pixelIndex_def)
  obtain df d where df: "calculateDistanceFieldFast ?c 3 3 5 = Some df"
      and d: "shortestToEdge ?c 3 3 (1, 1) d" and v: "df ! 4 = max 0 (min 5 d)"
    using C1_distance_field[of ?c 3 3 5 1 1] by auto
  have z: "df ! 0 = 0" using C1_distance_field[of ?c 3 3 5 0 0] corner df by auto
  have "pathToEdge ?c 3 3 (1, 1) [(1, 1), (0, 1)]" "pathLength [(1, 1), (0, 1)] = 1"
    using left by (simp_all add: pathToEdge_def adjacent8_def stepCost_def)
  then have le: "d \<le> 1" using d unfolding shortestToEdge_def by metis
  obtain ps where ps: "pathToEdge ?c 3 3 (1, 1) ps" "pathLength ps = d"
    using d unfolding shortestToEdge_def by blast
  obtain r rs where s: "ps = (1, 1) # r # rs"
  proof (cases ps)
    case Nil
    then show ?thesis using ps(1) by (simp add: pathToEdge_def)
  next
    case (Cons a as)
    then have a: "a = (1, 1)" using ps(1) by (simp add: pathToEdge_def)
    show ?thesis
    proof (cases as)
      case Nil
      then show ?thesis using ps(1) centre Cons a by (simp add: pathToEdge_def)
    next
      case (Cons r rs)
      then show ?thesis using that \<open>ps = a # as\<close> a by simp
    qed
  qed
  have "1 \<le> stepCost (1, 1) r" by (simp add: stepCost_def)
  then have "1 \<le> d" using ps(2) pathLength_nonneg[of "r # rs"] unfolding s by simp
  then have "df ! 4 = 1" using le v by simp
  then show "\<exists>df. calculateDistanceFieldFast ?c 3 3 5 = Some df \<and> df ! 0 = 0 \<and> df ! 4 = 1"
    using df z by simp
next
  show "\<exists>df. calculateDistanceFieldFast [True, False] 2 1 3 = Some df \<and> df ! 1 = - 1"
    using C1_distance_field[of "[True, False]" 2 1 3 1 0] by auto
qed

end
